theory Spec2Isabelle
  imports Complex_Main
begin

section \<open>Data model (shared/types/sudoku.ts, shared/types/hint-system.ts)\<close>

text \<open>
  A \<open>SudokuGrid\<close> is a JavaScript array of arrays of \<open>number | null\<close>.  A cell is
  \<open>Null\<close> or \<open>Num v\<close>; \<open>Undefined\<close> is what JavaScript yields for a read outside
  an array and what fills the holes that a write beyond the end of an array leaves.
  Array methods such as \<open>filter\<close> skip holes, so an \<open>Undefined\<close> element of a list
  stands for a hole; the one place where the code turns holes into elements that
  \<open>filter\<close> sees, the spread copy of \<open>isValidMove\<close>, is modelled there.  Numbers are
  modelled as integers, indices as naturals.
\<close>

datatype cell = Undefined | Null | Num int

type_synonym SudokuGrid = "cell list list"

definition GRID_SIZE :: nat where [simp]: "GRID_SIZE = 6"
definition BOX_WIDTH :: nat where [simp]: "BOX_WIDTH = 3"
definition BOX_HEIGHT :: nat where [simp]: "BOX_HEIGHT = 2"

text \<open>\<open>grid[row]\<close>: \<open>None\<close> is \<open>undefined\<close>.\<close>

definition rowAt :: "SudokuGrid \<Rightarrow> nat \<Rightarrow> cell list option" where
  "rowAt grid row = (if row < length grid then Some (grid ! row) else None)"

text \<open>\<open>row[col]\<close>.\<close>

definition elemAt :: "cell list \<Rightarrow> nat \<Rightarrow> cell" where
  "elemAt xs col = (if col < length xs then xs ! col else Undefined)"

text \<open>\<open>grid[row]?.[col]\<close>.\<close>

definition cellAt :: "SudokuGrid \<Rightarrow> nat \<Rightarrow> nat \<Rightarrow> cell" where
  "cellAt grid row col = (case rowAt grid row of None \<Rightarrow> Undefined | Some xs \<Rightarrow> elemAt xs col)"

text \<open>\<open>row[col] = v\<close>: a write past the end extends the array and leaves holes.\<close>

definition jsSet :: "cell list \<Rightarrow> nat \<Rightarrow> cell \<Rightarrow> cell list" where
  "jsSet xs col v =
     (if col < length xs then xs[col := v]
      else xs @ replicate (col - length xs) Undefined @ [v])"

text \<open>\<open>grid[row][col] = v\<close> for a row that exists.\<close>

definition setCell :: "SudokuGrid \<Rightarrow> nat \<Rightarrow> nat \<Rightarrow> cell \<Rightarrow> SudokuGrid" where
  "setCell grid row col v = grid[row := jsSet (grid ! row) col v]"

text \<open>
  \<open>unit.filter(v => v !== null)\<close> on a unit whose \<open>undefined\<close> entries were dropped
  or are holes: the numbers of the unit, in order.
\<close>

fun nums :: "cell list \<Rightarrow> int list" where
  "nums [] = []"
| "nums (Num v # xs) = v # nums xs"
| "nums (_ # xs) = nums xs"

section \<open>SudokuValidator (shared/utils/sudoku.ts)\<close>

text \<open>\<open>new Set(values).size === values.length\<close>.\<close>

definition isValidUnit :: "cell list \<Rightarrow> bool" where
  "isValidUnit unit = distinct (nums unit)"

definition getBox :: "SudokuGrid \<Rightarrow> nat \<Rightarrow> nat \<Rightarrow> cell list" where
  "getBox grid boxRow boxCol =
     (let startRow = boxRow * BOX_HEIGHT; startCol = boxCol * BOX_WIDTH in
      concat (map (\<lambda>row. case rowAt grid row of
                            None \<Rightarrow> []
                          | Some currentRow \<Rightarrow>
                              filter (\<lambda>cell. cell \<noteq> Undefined)
                                (map (elemAt currentRow) [startCol ..< startCol + BOX_WIDTH]))
                  [startRow ..< startRow + BOX_HEIGHT]))"

definition column :: "SudokuGrid \<Rightarrow> nat \<Rightarrow> cell list" where
  "column grid col = filter (\<lambda>cell. cell \<noteq> Undefined) (map (\<lambda>row. elemAt row col) grid)"

definition isValidGrid :: "SudokuGrid \<Rightarrow> bool" where
  "isValidGrid grid =
     (if length grid \<noteq> GRID_SIZE \<or> (\<exists>row \<in> set grid. length row \<noteq> GRID_SIZE) then False
      else (\<forall>row \<in> set [0 ..< GRID_SIZE]. isValidUnit (grid ! row))
         \<and> (\<forall>col \<in> set [0 ..< GRID_SIZE]. isValidUnit (column grid col))
         \<and> (\<forall>boxRow \<in> set [0 ..< GRID_SIZE div BOX_HEIGHT].
              \<forall>boxCol \<in> set [0 ..< GRID_SIZE div BOX_WIDTH].
                isValidUnit (getBox grid boxRow boxCol)))"

text \<open>
  \<open>isValidMove\<close> works on a copy \<open>testGrid\<close> of the grid; the value returned is a
  function of the grid's content.  (The store-level model further down makes the copy
  explicit.)

  The copy \<open>[...r]\<close> of a row has no holes: where \<open>r\<close> has a hole the copy has an
  element whose value is \<open>undefined\<close>.  The row check
  \<open>targetRow.filter(v => v !== null)\<close> keeps these elements, and \<open>new Set\<close> counts
  \<open>undefined\<close> as one value, so two of them make the row check fail.  The holes that
  the write \<open>targetRow[col] = value\<close> leaves when \<open>col\<close> is past the end of the row
  are skipped by \<open>filter\<close>.  The column and the box checks drop \<open>undefined\<close>.
\<close>

definition copiedRowValues :: "cell list \<Rightarrow> nat \<Rightarrow> cell \<Rightarrow> cell list" where
  "copiedRowValues r col x =
     filter (\<lambda>v. v \<noteq> Null) (if col < length r then r[col := x] else r @ [x])"

definition isValidMove :: "SudokuGrid \<Rightarrow> nat \<Rightarrow> nat \<Rightarrow> int \<Rightarrow> bool" where
  "isValidMove grid row col v =
     (if v < 1 \<or> v > 6 then False
      else case rowAt grid row of
        None \<Rightarrow> False
      | Some r \<Rightarrow>
          (let testGrid = setCell grid row col (Num v);
               rowValues = copiedRowValues r col (Num v);
               colValues = nums (map (\<lambda>r. elemAt r col) testGrid);
               boxValues = nums (getBox testGrid (row div BOX_HEIGHT) (col div BOX_WIDTH))
           in distinct rowValues \<and> distinct colValues \<and> distinct boxValues))"

definition isSolved :: "SudokuGrid \<Rightarrow> bool" where
  "isSolved grid =
     (if (\<exists>row \<in> set [0 ..< GRID_SIZE].
            case rowAt grid row of
              None \<Rightarrow> True
            | Some currentRow \<Rightarrow> (\<exists>col \<in> set [0 ..< GRID_SIZE]. elemAt currentRow col = Null))
      then False
      else isValidGrid grid)"

section \<open>Hint-system types (shared/types/hint-system.ts)\<close>

datatype SolvingTechnique = NAKED_SINGLE | HIDDEN_SINGLE

datatype MoveKind = Place | Eliminate

record HintMove =
  hm_type :: MoveKind
  hm_row :: nat
  hm_col :: nat
  hm_value :: int
  hm_technique :: SolvingTechnique
  hm_explanation :: string
  hm_confidence :: real

datatype ErrorKind = Contradiction | Invalid_move | No_solution

record ErrorLocation =
  el_row :: nat
  el_col :: nat
  el_type :: ErrorKind
  el_description :: string
  el_suggestedAction :: string

text \<open>
  A \<open>Set<number>\<close> keeps insertion order: a list without repetitions.  A
  \<open>CandidateGrid\<close> is an object of objects of sets, indexed by row and column: an
  association list of association lists.
\<close>

type_synonym CandidateGrid = "(nat \<times> (nat \<times> int list) list) list"

record BoardAnalysis =
  ba_availableMoves :: "HintMove list"
  ba_candidateGrid :: CandidateGrid
  ba_errors :: "ErrorLocation list"
  ba_isValid :: bool
  ba_isSolvable :: bool

text \<open>\<open>candidates[row]?.[col]\<close>.\<close>

definition candAt :: "CandidateGrid \<Rightarrow> nat \<Rightarrow> nat \<Rightarrow> int list option" where
  "candAt candidates row col =
     (case map_of candidates row of None \<Rightarrow> None | Some r \<Rightarrow> map_of r col)"

text \<open>
  Decimal rendering of numbers inside template strings.  JavaScript prints an integer
  in decimal when its magnitude is below \<open>10^21\<close> and in exponent form from there on;
  the strings built below are those of the code for row and column indices and for
  cell values below that bound, which is all that the statements of this theory use.
\<close>

function showNat :: "nat \<Rightarrow> string" where
  "showNat n = (if n < 10 then [''0123456789'' ! n]
                else showNat (n div 10) @ [''0123456789'' ! (n mod 10)])"
  by pat_completeness auto
termination
  by (relation "measure id") auto

definition showInt :: "int \<Rightarrow> string" where
  "showInt i = (if i < 0 then CHR ''-'' # showNat (nat (- i)) else showNat (nat i))"

section \<open>CandidateCalculator (shared/utils/candidate-calculator.ts)\<close>

text \<open>\<open>if (value !== null) candidates.delete(value)\<close>; deleting \<open>undefined\<close> does nothing.\<close>

fun deleteCell :: "cell \<Rightarrow> int list \<Rightarrow> int list" where
  "deleteCell (Num v) candidates = removeAll v candidates"
| "deleteCell _ candidates = candidates"

definition calculateCellCandidates :: "SudokuGrid \<Rightarrow> nat \<Rightarrow> nat \<Rightarrow> int list" where
  "calculateCellCandidates grid row col =
     (if cellAt grid row col \<noteq> Null then []
      else
        let candidates = [1, 2, 3, 4, 5, 6];
            candidates = (case rowAt grid row of
                            None \<Rightarrow> candidates
                          | Some currentRow \<Rightarrow> fold deleteCell currentRow candidates);
            candidates = fold (\<lambda>r. deleteCell (cellAt grid r col)) [0 ..< GRID_SIZE] candidates;
            startRow = (row div BOX_HEIGHT) * BOX_HEIGHT;
            startCol = (col div BOX_WIDTH) * BOX_WIDTH
        in fold (\<lambda>r cs. fold (\<lambda>c. deleteCell (cellAt grid r c))
                            [startCol ..< startCol + BOX_WIDTH] cs)
             [startRow ..< startRow + BOX_HEIGHT] candidates)"

definition calculateAllCandidates :: "SudokuGrid \<Rightarrow> CandidateGrid" where
  "calculateAllCandidates grid =
     map (\<lambda>row. (row, map (\<lambda>col. (col, if cellAt grid row col = Null
                                          then calculateCellCandidates grid row col
                                          else []))
                        [0 ..< GRID_SIZE]))
         [0 ..< GRID_SIZE]"

text \<open>The cells of the 6 by 6 board in the order of the nested \<open>for\<close> loops.\<close>

definition allPositions :: "(nat \<times> nat) list" where
  "allPositions = concat (map (\<lambda>row. map (\<lambda>col. (row, col)) [0 ..< GRID_SIZE]) [0 ..< GRID_SIZE])"

definition findCellsWithNoCandidates :: "CandidateGrid \<Rightarrow> (nat \<times> nat) list" where
  "findCellsWithNoCandidates candidates =
     filter (\<lambda>(row, col). case candAt candidates row col of
                              None \<Rightarrow> False
                            | Some cellCandidates \<Rightarrow> length cellCandidates = 0)
            allPositions"

definition findNakedSingles :: "CandidateGrid \<Rightarrow> (nat \<times> nat \<times> int) list" where
  "findNakedSingles candidates =
     concat (map (\<lambda>(row, col). case candAt candidates row col of
                                  Some [v] \<Rightarrow> [(row, col, v)]
                                | _ \<Rightarrow> [])
                 allPositions)"

datatype UnitKind = RowUnit | ColumnUnit | BoxUnit

text \<open>\<open>grid[r]?.[c] === null && candidates[r]?.[c]?.has(value)\<close>.\<close>

definition possibleAt :: "SudokuGrid \<Rightarrow> CandidateGrid \<Rightarrow> int \<Rightarrow> nat \<Rightarrow> nat \<Rightarrow> bool" where
  "possibleAt grid candidates v r c =
     (cellAt grid r c = Null \<and>
      (case candAt candidates r c of None \<Rightarrow> False | Some s \<Rightarrow> v \<in> set s))"

definition findHiddenSingles ::
  "SudokuGrid \<Rightarrow> CandidateGrid \<Rightarrow> (nat \<times> nat \<times> int \<times> UnitKind) list" where
  "findHiddenSingles grid candidates =
     concat (map (\<lambda>row. concat (map (\<lambda>v.
         (case filter (\<lambda>col. possibleAt grid candidates v row col) [0 ..< GRID_SIZE] of
            [col] \<Rightarrow> [(row, col, v, RowUnit)]
          | _ \<Rightarrow> [])) [1, 2, 3, 4, 5, 6])) [0 ..< GRID_SIZE])
     @
     concat (map (\<lambda>col. concat (map (\<lambda>v.
         (case filter (\<lambda>row. possibleAt grid candidates v row col) [0 ..< GRID_SIZE] of
            [row] \<Rightarrow> [(row, col, v, ColumnUnit)]
          | _ \<Rightarrow> [])) [1, 2, 3, 4, 5, 6])) [0 ..< GRID_SIZE])
     @
     concat (map (\<lambda>boxRow. concat (map (\<lambda>boxCol. concat (map (\<lambda>v.
         (let startRow = boxRow * BOX_HEIGHT; startCol = boxCol * BOX_WIDTH in
          case filter (\<lambda>(r, c). possibleAt grid candidates v r c)
                 (concat (map (\<lambda>r. map (\<lambda>c. (r, c)) [startCol ..< startCol + BOX_WIDTH])
                              [startRow ..< startRow + BOX_HEIGHT])) of
            [(r, c)] \<Rightarrow> [(r, c, v, BoxUnit)]
          | _ \<Rightarrow> [])) [1, 2, 3, 4, 5, 6]))
       [0 ..< GRID_SIZE div BOX_WIDTH])) [0 ..< GRID_SIZE div BOX_HEIGHT])"

section \<open>SolvingTechniques and TechniquePriority (shared/utils/solving-techniques.ts)\<close>

definition getCellName :: "nat \<Rightarrow> nat \<Rightarrow> string" where
  "getCellName row col = ''R'' @ showNat (row + 1) @ ''C'' @ showNat (col + 1)"

definition getUnitName :: "nat \<Rightarrow> nat \<Rightarrow> UnitKind \<Rightarrow> string" where
  "getUnitName row col unit =
     (case unit of
        RowUnit \<Rightarrow> ''row '' @ showNat (row + 1)
      | ColumnUnit \<Rightarrow> ''column '' @ showNat (col + 1)
      | BoxUnit \<Rightarrow> ''box '' @ showNat (row div 2 + 1) @ ''-'' @ showNat (col div 3 + 1))"

definition explainNakedSingle :: "nat \<Rightarrow> nat \<Rightarrow> int \<Rightarrow> string" where
  "explainNakedSingle row col v =
     getCellName row col @ '' can only be '' @ showInt v @
     ''. This is the only number that fits in this cell based on the numbers already placed in its row, column, and box.''"

definition explainHiddenSingle :: "nat \<Rightarrow> nat \<Rightarrow> int \<Rightarrow> UnitKind \<Rightarrow> string" where
  "explainHiddenSingle row col v unit =
     getCellName row col @ '' must be '' @ showInt v @
     ''. This is the only place where '' @ showInt v @ '' can go in '' @
     getUnitName row col unit @ ''.''"

definition techniquesFindNakedSingles :: "SudokuGrid \<Rightarrow> CandidateGrid \<Rightarrow> HintMove list" where
  "techniquesFindNakedSingles grid candidates =
     map (\<lambda>(row, col, v).
            \<lparr> hm_type = Place, hm_row = row, hm_col = col, hm_value = v,
              hm_technique = NAKED_SINGLE,
              hm_explanation = explainNakedSingle row col v,
              hm_confidence = 1 \<rparr>)
         (findNakedSingles candidates)"

definition techniquesFindHiddenSingles :: "SudokuGrid \<Rightarrow> CandidateGrid \<Rightarrow> HintMove list" where
  "techniquesFindHiddenSingles grid candidates =
     map (\<lambda>(row, col, v, unit).
            \<lparr> hm_type = Place, hm_row = row, hm_col = col, hm_value = v,
              hm_technique = HIDDEN_SINGLE,
              hm_explanation = explainHiddenSingle row col v unit,
              hm_confidence = 1 \<rparr>)
         (findHiddenSingles grid candidates)"

definition TECHNIQUE_ORDER :: "SolvingTechnique list" where
  "TECHNIQUE_ORDER = [NAKED_SINGLE, HIDDEN_SINGLE]"

text \<open>\<open>Array.prototype.indexOf\<close>: \<open>-1\<close> when absent.\<close>

fun indexOf :: "'a list \<Rightarrow> 'a \<Rightarrow> int" where
  "indexOf [] x = -1"
| "indexOf (y # ys) x =
     (if y = x then 0 else (let i = indexOf ys x in if i < 0 then -1 else i + 1))"

definition compareMoves :: "HintMove \<Rightarrow> HintMove \<Rightarrow> real" where
  "compareMoves a b =
     (let priorityA = indexOf TECHNIQUE_ORDER (hm_technique a);
          priorityB = indexOf TECHNIQUE_ORDER (hm_technique b)
      in if priorityA \<noteq> priorityB then of_int (priorityA - priorityB)
         else hm_confidence b - hm_confidence a)"

text \<open>
  \<open>Array.prototype.sort\<close> is a stable sort: with a comparator it yields the moves in
  comparator order, equal ones in their order of arrival.  Stable insertion does the same.
\<close>

fun insertMove :: "HintMove \<Rightarrow> HintMove list \<Rightarrow> HintMove list" where
  "insertMove x [] = [x]"
| "insertMove x (y # ys) =
     (if compareMoves x y < 0 then x # y # ys else y # insertMove x ys)"

definition sortMovesByPriority :: "HintMove list \<Rightarrow> HintMove list" where
  "sortMovesByPriority moves = foldl (\<lambda>sorted m. insertMove m sorted) [] moves"

section \<open>HintEngine (shared/utils/hint-engine.ts)\<close>

text \<open>The key \<open>`${row}-${col}-${value}`\<close> determines the triple, which stands for it.\<close>

fun removeDuplicateMovesFrom ::
  "(nat \<times> nat \<times> int) list \<Rightarrow> HintMove list \<Rightarrow> HintMove list" where
  "removeDuplicateMovesFrom seen [] = []"
| "removeDuplicateMovesFrom seen (m # ms) =
     (let key = (hm_row m, hm_col m, hm_value m) in
      if key \<in> set seen then removeDuplicateMovesFrom seen ms
      else m # removeDuplicateMovesFrom (key # seen) ms)"

definition removeDuplicateMoves :: "HintMove list \<Rightarrow> HintMove list" where
  "removeDuplicateMoves moves = removeDuplicateMovesFrom [] moves"

definition findAllAvailableMoves :: "SudokuGrid \<Rightarrow> CandidateGrid \<Rightarrow> HintMove list" where
  "findAllAvailableMoves grid candidates =
     removeDuplicateMoves
       (techniquesFindNakedSingles grid candidates @ techniquesFindHiddenSingles grid candidates)"

definition noSolutionError :: "nat \<times> nat \<Rightarrow> ErrorLocation" where
  "noSolutionError cell =
     \<lparr> el_row = fst cell, el_col = snd cell, el_type = No_solution,
       el_description = ''Cell R'' @ showNat (fst cell + 1) @ ''C'' @ showNat (snd cell + 1) @
                        '' has no possible values.'',
       el_suggestedAction = ''Check recent moves for errors and consider undoing them.'' \<rparr>"

definition invalidMoveError :: "nat \<Rightarrow> nat \<Rightarrow> int \<Rightarrow> ErrorLocation" where
  "invalidMoveError row col v =
     \<lparr> el_row = row, el_col = col, el_type = Invalid_move,
       el_description = ''Value '' @ showInt v @ '' at R'' @ showNat (row + 1) @ ''C'' @
                        showNat (col + 1) @ '' violates Sudoku rules.'',
       el_suggestedAction = ''This cell contains an invalid value and should be corrected.'' \<rparr>"

definition detectErrors :: "SudokuGrid \<Rightarrow> CandidateGrid option \<Rightarrow> ErrorLocation list" where
  "detectErrors grid candidateGrid =
     (let candidates = (case candidateGrid of
                          Some cg \<Rightarrow> cg
                        | None \<Rightarrow> calculateAllCandidates grid);
          emptyCells = findCellsWithNoCandidates candidates
      in map noSolutionError emptyCells
         @ concat (map (\<lambda>row.
             concat (map (\<lambda>col.
               (case (grid ! row) ! col of
                  Num v \<Rightarrow>
                    (let testGrid = setCell grid row col Null in
                     if \<not> isValidMove testGrid row col v then [invalidMoveError row col v]
                     else [])
                | _ \<Rightarrow> []))
               [0 ..< length (grid ! row)]))
             [0 ..< length grid]))"

definition analyzeBoard :: "SudokuGrid \<Rightarrow> BoardAnalysis" where
  "analyzeBoard grid =
     (let candidateGrid = calculateAllCandidates grid;
          availableMoves = findAllAvailableMoves grid candidateGrid;
          errors = detectErrors grid (Some candidateGrid);
          isValid = (isValidGrid grid \<and> length errors = 0);
          isSolvable = (isValid \<and> (length availableMoves > 0 \<or> isSolved grid))
      in \<lparr> ba_availableMoves = availableMoves, ba_candidateGrid = candidateGrid,
           ba_errors = errors, ba_isValid = isValid, ba_isSolvable = isSolvable \<rparr>)"

text \<open>\<open>findNextMove\<close>: \<open>None\<close> is \<open>null\<close>.\<close>

definition findNextMove :: "SudokuGrid \<Rightarrow> HintMove option" where
  "findNextMove grid =
     (let analysis = analyzeBoard grid in
      if length (ba_errors analysis) > 0 then None
      else if length (ba_availableMoves analysis) = 0 then None
      else (case sortMovesByPriority (ba_availableMoves analysis) of
              [] \<Rightarrow> None
            | m # _ \<Rightarrow> Some m))"

section \<open>Example boards\<close>

text \<open>A solved board, the same board with one cell cleared, and a consistent board whose
  top-left cell has no candidate left.\<close>

definition exampleSolution :: SudokuGrid where
  "exampleSolution = map (map Num)
     [[1, 2, 3, 4, 5, 6],
      [4, 5, 6, 1, 2, 3],
      [2, 3, 1, 5, 6, 4],
      [5, 6, 4, 2, 3, 1],
      [3, 1, 2, 6, 4, 5],
      [6, 4, 5, 3, 1, 2]]"

definition oneEmptyCell :: SudokuGrid where
  "oneEmptyCell = setCell exampleSolution 2 3 Null"

definition deadCellGrid :: SudokuGrid where
  "deadCellGrid =
     [[Null, Null, Null, Num 1, Num 2, Null],
      [Null, Null, Null, Null, Null, Null],
      [Num 3, Null, Null, Null, Null, Null],
      [Num 4, Null, Null, Null, Null, Null],
      [Num 5, Null, Null, Null, Null, Null],
      [Num 6, Null, Null, Null, Null, Null]]"

section \<open>An object store for the claims that depend on aliasing\<close>

text \<open>
  JavaScript arrays, objects and sets are mutable and passed by reference.  The store
  is the list of all objects allocated so far; an address is an index into it and
  allocation appends.  A grid is the address of an array of row addresses; a candidate
  map is the address of an object whose properties refer to row objects, whose
  properties refer to sets.
\<close>

datatype obj =
    RowObj "cell list"
  | GridObj "nat list"
  | DictObj "(nat \<times> nat) list"
  | SetObj "int list"

type_synonym store = "obj list"

definition alloc :: "store \<Rightarrow> obj \<Rightarrow> nat \<times> store" where
  "alloc st ob = (length st, st @ [ob])"

definition getRow :: "store \<Rightarrow> nat \<Rightarrow> cell list" where
  "getRow st a = (if a < length st then (case st ! a of RowObj xs \<Rightarrow> xs | _ \<Rightarrow> []) else [])"

definition getRefs :: "store \<Rightarrow> nat \<Rightarrow> nat list" where
  "getRefs st g = (if g < length st then (case st ! g of GridObj rs \<Rightarrow> rs | _ \<Rightarrow> []) else [])"

definition viewGrid :: "store \<Rightarrow> nat \<Rightarrow> SudokuGrid" where
  "viewGrid st g = map (getRow st) (getRefs st g)"

definition gridAllocated :: "store \<Rightarrow> nat \<Rightarrow> bool" where
  "gridAllocated st g = (g < length st \<and> list_all (\<lambda>a. a < length st) (getRefs st g))"

fun copyRows :: "store \<Rightarrow> nat list \<Rightarrow> nat list \<times> store" where
  "copyRows st [] = ([], st)"
| "copyRows st (r # rs) =
     (let (a, st1) = alloc st (RowObj (getRow st r));
          (as, st2) = copyRows st1 rs
      in (a # as, st2))"

definition deepCopyGrid :: "store \<Rightarrow> nat \<Rightarrow> nat \<times> store" where
  "deepCopyGrid st g = (let (rows, st1) = copyRows st (getRefs st g) in alloc st1 (GridObj rows))"

definition writeRow :: "store \<Rightarrow> nat \<Rightarrow> nat \<Rightarrow> cell \<Rightarrow> store" where
  "writeRow st a col v = st[a := RowObj (jsSet (getRow st a) col v)]"

text \<open>
  \<open>isValidMove\<close> on the store: \<open>testGrid\<close> is a fresh array of fresh rows and the
  write goes into the fresh row.  \<open>rowValues\<close> is computed as in the content-level
  model, from the copied row and the written value.
\<close>

definition isValidMove_st :: "store \<Rightarrow> nat \<Rightarrow> nat \<Rightarrow> nat \<Rightarrow> int \<Rightarrow> bool \<times> store" where
  "isValidMove_st st grid row col v =
     (if v < 1 \<or> v > 6 then (False, st)
      else
        let (testGrid, st1) = deepCopyGrid st grid in
        if \<not> row < length (getRefs st1 testGrid) then (False, st1)
        else
          let targetRow = getRefs st1 testGrid ! row;
              st2 = writeRow st1 targetRow col (Num v);
              rowValues = copiedRowValues (getRow st1 targetRow) col (Num v);
              colValues = nums (map (\<lambda>r. elemAt r col) (viewGrid st2 testGrid));
              boxValues = nums (getBox (viewGrid st2 testGrid) (row div BOX_HEIGHT) (col div BOX_WIDTH))
          in (distinct rowValues \<and> distinct colValues \<and> distinct boxValues, st2))"


definition exampleStore :: store where
  "exampleStore = map RowObj oneEmptyCell @ [GridObj [0, 1, 2, 3, 4, 5]]"


section \<open>MoveHistoryManager (shared/utils/move-history.ts)\<close>

record PlayerMove =
  pm_row :: nat
  pm_col :: nat
  pm_value :: "int option"
  pm_isUndo :: "bool option"

record MoveHistoryEntry =
  he_move :: PlayerMove
  he_timestamp :: int
  he_boardStateBefore :: nat
  he_wasHintUsed :: bool
  he_technique :: "SolvingTechnique option"

definition maxHistorySize :: nat where
  "maxHistorySize = 100"

definition addMove ::
  "int \<Rightarrow> store \<Rightarrow> MoveHistoryEntry list \<Rightarrow> PlayerMove \<Rightarrow> nat \<Rightarrow> bool \<Rightarrow> SolvingTechnique option
     \<Rightarrow> MoveHistoryEntry list \<times> store" where
  "addMove now st history move boardStateBefore wasHintUsed technique =
     (let (copy, st1) = deepCopyGrid st boardStateBefore;
          entry = \<lparr> he_move = move, he_timestamp = now, he_boardStateBefore = copy,
                    he_wasHintUsed = wasHintUsed, he_technique = technique \<rparr>;
          history1 = history @ [entry]
      in (if length history1 > maxHistorySize
          then drop (length history1 - maxHistorySize) history1
          else history1, st1))"

definition getLastMove :: "MoveHistoryEntry list \<Rightarrow> MoveHistoryEntry option" where
  "getLastMove history =
     (if length history > 0 then Some (history ! (length history - 1)) else None)"

definition getBoardStateAtIndex ::
  "store \<Rightarrow> MoveHistoryEntry list \<Rightarrow> nat \<Rightarrow> nat option \<times> store" where
  "getBoardStateAtIndex st history index =
     (if index < length history
      then (let (copy, st1) = deepCopyGrid st (he_boardStateBefore (history ! index))
            in (Some copy, st1))
      else (None, st))"

text \<open>The caller's \<open>grid[r][c] = x\<close>; \<open>None\<close> is the TypeError of a missing row.\<close>

definition writeCell :: "store \<Rightarrow> nat \<Rightarrow> nat \<Rightarrow> nat \<Rightarrow> cell \<Rightarrow> store option" where
  "writeCell st g r c x =
     (if r < length (getRefs st g) then Some (writeRow st (getRefs st g ! r) c x) else None)"

fun writeCells :: "store \<Rightarrow> nat \<Rightarrow> (nat \<times> nat \<times> cell) list \<Rightarrow> store option" where
  "writeCells st g [] = Some st"
| "writeCells st g ((r, c, x) # ws) =
     (case writeCell st g r c x of None \<Rightarrow> None | Some st1 \<Rightarrow> writeCells st1 g ws)"

text \<open>Stores that differ only in objects older than address \<open>n\<close>.\<close>

definition sameFrom :: "nat \<Rightarrow> store \<Rightarrow> store \<Rightarrow> bool" where
  "sameFrom n st1 st2 = (length st2 = length st1 \<and> drop n st2 = drop n st1)"


section \<open>CandidateCalculator.updateCandidatesAfterMove on the store\<close>

datatype jsError = TypeError

definition getDict :: "store \<Rightarrow> nat \<Rightarrow> (nat \<times> nat) list option" where
  "getDict st a = (if a < length st then (case st ! a of DictObj d \<Rightarrow> Some d | _ \<Rightarrow> None) else None)"

definition getSet :: "store \<Rightarrow> nat \<Rightarrow> int list" where
  "getSet st a = (if a < length st then (case st ! a of SetObj s \<Rightarrow> s | _ \<Rightarrow> []) else [])"

text \<open>\<open>obj[key]\<close> for an object that holds references.\<close>

definition getProp :: "store \<Rightarrow> nat \<Rightarrow> nat \<Rightarrow> nat option" where
  "getProp st a k = (case getDict st a of None \<Rightarrow> None | Some d \<Rightarrow> map_of d k)"

text \<open>\<open>obj[key] = ref\<close>.\<close>

definition setProp :: "store \<Rightarrow> nat \<Rightarrow> nat \<Rightarrow> nat \<Rightarrow> store" where
  "setProp st a k v =
     (case getDict st a of
        None \<Rightarrow> st
      | Some d \<Rightarrow> st[a := DictObj ((k, v) # filter (\<lambda>p. fst p \<noteq> k) d)])"

text \<open>\<open>set.delete(v)\<close>.\<close>

definition setDelete :: "store \<Rightarrow> nat \<Rightarrow> int \<Rightarrow> store" where
  "setDelete st a v = st[a := SetObj (removeAll v (getSet st a))]"

text \<open>\<open>candidates[row]?.[col]\<close>, as a reference.\<close>

definition candRef :: "store \<Rightarrow> nat \<Rightarrow> nat \<Rightarrow> nat \<Rightarrow> nat option" where
  "candRef st candidates row col =
     (case getProp st candidates row of None \<Rightarrow> None | Some r \<Rightarrow> getProp st r col)"

text \<open>The content of the candidate set of a cell, when the map has one.\<close>

definition viewCand :: "store \<Rightarrow> nat \<Rightarrow> nat \<Rightarrow> nat \<Rightarrow> int list option" where
  "viewCand st candidates row col = map_option (getSet st) (candRef st candidates row col)"

definition copyCell :: "nat \<Rightarrow> nat \<Rightarrow> nat \<Rightarrow> nat \<Rightarrow> store \<Rightarrow> store" where
  "copyCell candidates rowObj row col st =
     (let cellCandidates = candRef st candidates row col;
          (s, st1) = alloc st (SetObj (case cellCandidates of
                                         Some a \<Rightarrow> getSet st a
                                       | None \<Rightarrow> []))
      in setProp st1 rowObj col s)"

definition copyCandRow :: "nat \<Rightarrow> nat \<Rightarrow> nat \<Rightarrow> store \<Rightarrow> store" where
  "copyCandRow candidates copy row st =
     (let (rowObj, st1) = alloc st (DictObj []);
          st2 = setProp st1 copy row rowObj
      in fold (copyCell candidates rowObj row) [0 ..< GRID_SIZE] st2)"

definition deepCopyCandidates :: "store \<Rightarrow> nat \<Rightarrow> nat \<times> store" where
  "deepCopyCandidates st candidates =
     (let (copy, st0) = alloc st (DictObj [])
      in (copy, fold (copyCandRow candidates copy) [0 ..< GRID_SIZE] st0))"

text \<open>\<open>if (cond && newCandidates[r]?.[c]) newCandidates[r][c].delete(v)\<close>.\<close>

definition deleteAt :: "nat \<Rightarrow> int \<Rightarrow> bool \<Rightarrow> nat \<Rightarrow> nat \<Rightarrow> store \<Rightarrow> store" where
  "deleteAt newCandidates v cond r c st =
     (if cond then (case candRef st newCandidates r c of
                      Some a \<Rightarrow> setDelete st a v
                    | None \<Rightarrow> st)
      else st)"

definition updateCandidatesAfterMove ::
  "store \<Rightarrow> SudokuGrid \<Rightarrow> nat \<Rightarrow> PlayerMove \<Rightarrow> jsError + (nat \<times> store)" where
  "updateCandidatesAfterMove st grid candidates move =
     (let (newCandidates, st1) = deepCopyCandidates st candidates in
      case getProp st1 newCandidates (pm_row move) of
        None \<Rightarrow> Inl TypeError
      | Some rowObj \<Rightarrow>
          (case pm_value move of
             None \<Rightarrow>
               (let (s, st2) = alloc st1 (SetObj (calculateCellCandidates grid (pm_row move) (pm_col move)))
                in Inr (newCandidates, setProp st2 rowObj (pm_col move) s))
           | Some v \<Rightarrow>
               (let (s, st2) = alloc st1 (SetObj []);
                    st3 = setProp st2 rowObj (pm_col move) s;
                    st4 = fold (\<lambda>col. deleteAt newCandidates v (col \<noteq> pm_col move) (pm_row move) col)
                            [0 ..< GRID_SIZE] st3;
                    st5 = fold (\<lambda>row. deleteAt newCandidates v (row \<noteq> pm_row move) row (pm_col move))
                            [0 ..< GRID_SIZE] st4;
                    startRow = (pm_row move div BOX_HEIGHT) * BOX_HEIGHT;
                    startCol = (pm_col move div BOX_WIDTH) * BOX_WIDTH;
                    st6 = fold (\<lambda>r. fold (\<lambda>c. deleteAt newCandidates v
                                                  (r \<noteq> pm_row move \<or> c \<noteq> pm_col move) r c)
                                         [startCol ..< startCol + BOX_WIDTH])
                            [startRow ..< startRow + BOX_HEIGHT] st5
                in Inr (newCandidates, st6))))"

text \<open>
  Every reference of the input map (for the 36 cells of the board) is an object of the
  store.  Real JavaScript references always are; entries may be missing.
\<close>

definition cellAllocated :: "store \<Rightarrow> nat \<Rightarrow> nat \<Rightarrow> nat \<Rightarrow> bool" where
  "cellAllocated st candidates row col =
     (candidates < length st \<and>
      (case getProp st candidates row of
         None \<Rightarrow> True
       | Some ro \<Rightarrow> ro < length st \<and>
                    (case getProp st ro col of None \<Rightarrow> True | Some a \<Rightarrow> a < length st)))"

definition candAllocated :: "store \<Rightarrow> nat \<Rightarrow> bool" where
  "candAllocated st candidates =
     list_all (\<lambda>row. list_all (\<lambda>col. cellAllocated st candidates row col) [0 ..< GRID_SIZE])
              [0 ..< GRID_SIZE]"


definition clearMove :: "nat \<Rightarrow> nat \<Rightarrow> PlayerMove" where
  "clearMove r c = \<lparr> pm_row = r, pm_col = c, pm_value = None, pm_isUndo = None \<rparr>"

definition partialCandStore :: store where
  "partialCandStore = [SetObj [1, 2], SetObj [3], DictObj [(0, 0), (1, 1)], DictObj [(0, 2)]]"


section \<open>Auxiliary notions for the store proofs\<close>

definition ext :: "store \<Rightarrow> store \<Rightarrow> bool" where
  "ext st0 st = (take (length st0) st = st0)"

text \<open>What the copy of one cell holds: the content of the input's set.\<close>

definition srcVal :: "store \<Rightarrow> nat \<Rightarrow> nat \<Rightarrow> nat \<Rightarrow> int list" where
  "srcVal st0 cands r c = (case candRef st0 cands r c of Some a \<Rightarrow> getSet st0 a | None \<Rightarrow> [])"

definition rowView :: "store \<Rightarrow> nat \<Rightarrow> nat \<Rightarrow> int list option" where
  "rowView st ro c = map_option (getSet st) (getProp st ro c)"

definition rowInv :: "store \<Rightarrow> nat \<Rightarrow> store \<Rightarrow> bool" where
  "rowInv st0 ro st =
     (ext st0 st \<and> length st0 \<le> ro \<and> getDict st ro \<noteq> None
      \<and> (\<forall>k x. getProp st ro k = Some x \<longrightarrow> length st0 \<le> x \<and> x < length st))"

definition stepRel :: "nat set \<Rightarrow> store \<Rightarrow> store \<Rightarrow> bool" where
  "stepRel A st st' =
     (length st \<le> length st'
      \<and> (\<forall>b. b \<notin> A \<and> b < length st \<longrightarrow> getDict st' b = getDict st b)
      \<and> (\<forall>x. x < length st \<longrightarrow> getSet st' x = getSet st x))"

definition rowDone :: "store \<Rightarrow> nat \<Rightarrow> nat \<Rightarrow> store \<Rightarrow> nat \<Rightarrow> bool" where
  "rowDone st0 cands copy st r =
     (case getProp st copy r of
        None \<Rightarrow> False
      | Some ro \<Rightarrow> ro \<noteq> copy \<and> rowInv st0 ro st
                   \<and> (\<forall>c < 6. rowView st ro c = Some (srcVal st0 cands r c)))"

definition outerInv :: "store \<Rightarrow> nat \<Rightarrow> nat \<Rightarrow> nat set \<Rightarrow> store \<Rightarrow> bool" where
  "outerInv st0 cands copy R st =
     (ext st0 st \<and> length st0 \<le> copy \<and> getDict st copy \<noteq> None
      \<and> (\<forall>r. r \<notin> R \<longrightarrow> getProp st copy r = None)
      \<and> (\<forall>r \<in> R. rowDone st0 cands copy st r)
      \<and> inj_on (getProp st copy) R)"


section \<open>Grids as functions from positions to cells\<close>

text \<open>A 6 by 6 array of arrays without holes.\<close>

definition wellFormed :: "SudokuGrid \<Rightarrow> bool" where
  "wellFormed g = (length g = 6 \<and> (\<forall>row \<in> set g. length row = 6 \<and> Undefined \<notin> set row))"

text \<open>Two cells of the board that share a row, a column or a 3 by 2 box.\<close>

definition sameUnit :: "nat \<Rightarrow> nat \<Rightarrow> nat \<Rightarrow> nat \<Rightarrow> bool" where
  "sameUnit r c r' c' = (r = r' \<or> c = c' \<or> (r div 2 = r' div 2 \<and> c div 3 = c' div 3))"

text \<open>No value occurs twice in a row, a column or a box.\<close>

definition consistent :: "SudokuGrid \<Rightarrow> bool" where
  "consistent g =
     (\<forall>r < 6. \<forall>c < 6. \<forall>r' < 6. \<forall>c' < 6. \<forall>v.
        cellAt g r c = Num v \<and> cellAt g r' c' = Num v \<and> sameUnit r c r' c'
          \<longrightarrow> r = r' \<and> c = c')"

text \<open>No cell that shares a unit with \<open>(r, c)\<close> holds \<open>v\<close>.\<close>

definition noPeer :: "SudokuGrid \<Rightarrow> nat \<Rightarrow> nat \<Rightarrow> int \<Rightarrow> bool" where
  "noPeer g r c v =
     (\<forall>r' < 6. \<forall>c' < 6. sameUnit r c r' c' \<and> (r', c') \<noteq> (r, c) \<longrightarrow> cellAt g r' c' \<noteq> Num v)"

text \<open>The positions that \<open>getBox\<close> reads, in its order.\<close>

definition boxPositions :: "nat \<Rightarrow> nat \<Rightarrow> (nat \<times> nat) list" where
  "boxPositions boxRow boxCol =
     concat (map (\<lambda>r. map (\<lambda>c. (r, c)) [boxCol * 3 ..< boxCol * 3 + 3])
                 [boxRow * 2 ..< boxRow * 2 + 2])"

text \<open>No value occurs twice in one row, one column, one box.\<close>

definition rowOK :: "SudokuGrid \<Rightarrow> nat \<Rightarrow> bool" where
  "rowOK g r = (\<forall>c < 6. \<forall>c' < 6. \<forall>v. cellAt g r c = Num v \<and> cellAt g r c' = Num v \<longrightarrow> c = c')"

definition colOK :: "SudokuGrid \<Rightarrow> nat \<Rightarrow> bool" where
  "colOK g c = (\<forall>r < 6. \<forall>r' < 6. \<forall>v. cellAt g r c = Num v \<and> cellAt g r' c = Num v \<longrightarrow> r = r')"

definition boxOK :: "SudokuGrid \<Rightarrow> nat \<Rightarrow> nat \<Rightarrow> bool" where
  "boxOK g br bc =
     (\<forall>r c r' c' v. r div 2 = br \<and> c div 3 = bc \<and> r' div 2 = br \<and> c' div 3 = bc
          \<and> cellAt g r c = Num v \<and> cellAt g r' c' = Num v \<longrightarrow> r = r' \<and> c = c')"

section \<open>SudokuGenerator: uniqueness check (shared/utils/sudoku.ts)\<close>

text \<open>
  \<open>findAllSolutions\<close> runs the recursive closure \<open>solve\<close> on a copy \<open>grid\<close> of the puzzle
  and on the list \<open>solutions\<close>; both are threaded through the calls.  The closure
  recurses once per cell, so the first argument bounds the depth of the JavaScript
  call stack: \<open>None\<close> is a stack overflow.  The \<open>for\<close> loop over the numbers 1..6 is
  \<open>solveNums\<close>, which receives the recursive call \<open>solve(nextRow, nextCol)\<close> as \<open>rec\<close>.
\<close>

type_synonym solveState = "SudokuGrid \<times> SudokuGrid list"

fun solveNums ::
  "(solveState \<Rightarrow> solveState option) \<Rightarrow> nat \<Rightarrow> nat \<Rightarrow> int list \<Rightarrow> solveState \<Rightarrow> solveState option" where
  "solveNums rec row col [] st = Some st"
| "solveNums rec row col (num # rest) (grid, solutions) =
     (if isValidMove grid row col num then
        (case rec (setCell grid row col (Num num), solutions) of
           None \<Rightarrow> None
         | Some (grid1, solutions1) \<Rightarrow>
             solveNums rec row col rest (setCell grid1 row col Null, solutions1))
      else solveNums rec row col rest (grid, solutions))"

primrec solve :: "nat \<Rightarrow> nat \<Rightarrow> nat \<Rightarrow> nat \<Rightarrow> solveState \<Rightarrow> solveState option" where
  "solve 0 maxSolutions row col st = None"
| "solve (Suc fuel) maxSolutions row col st =
     (if length (snd st) \<ge> maxSolutions then Some st
      else if row = GRID_SIZE then Some (fst st, snd st @ [fst st])
      else
        let nextRow = (if col = GRID_SIZE - 1 then row + 1 else row);
            nextCol = (if col = GRID_SIZE - 1 then 0 else col + 1)
        in case rowAt (fst st) row of
             None \<Rightarrow> Some st
           | Some currentRow \<Rightarrow>
               if elemAt currentRow col \<noteq> Null
               then solve fuel maxSolutions nextRow nextCol st
               else solveNums (solve fuel maxSolutions nextRow nextCol) row col
                      [1, 2, 3, 4, 5, 6] st)"

definition findAllSolutions :: "nat \<Rightarrow> SudokuGrid \<Rightarrow> nat \<Rightarrow> SudokuGrid list option" where
  "findAllSolutions fuel puzzle maxSolutions =
     map_option snd (solve fuel maxSolutions 0 0 (puzzle, []))"

text \<open>What \<open>JSON.stringify\<close> keeps of a grid: holes and \<open>undefined\<close> print as \<open>null\<close>.\<close>

definition toJSON :: "SudokuGrid \<Rightarrow> SudokuGrid" where
  "toJSON g = map (map (\<lambda>x. if x = Undefined then Null else x)) g"

definition hasUniqueSolution :: "nat \<Rightarrow> SudokuGrid \<Rightarrow> SudokuGrid \<Rightarrow> bool option" where
  "hasUniqueSolution fuel puzzle expectedSolution =
     (case findAllSolutions fuel puzzle 2 of
        None \<Rightarrow> None
      | Some solutions \<Rightarrow>
          Some (if length solutions \<noteq> 1 then False
                else toJSON (solutions ! 0) = toJSON expectedSolution))"

section \<open>Completions of a puzzle\<close>

text \<open>
  \<open>h\<close> completes \<open>puzzle\<close>: it is a solved 6 by 6 grid that keeps the clues of the puzzle
  and holds a value 1..6 wherever the puzzle is empty.
\<close>

definition isCompletion :: "SudokuGrid \<Rightarrow> SudokuGrid \<Rightarrow> bool" where
  "isCompletion puzzle h =
     (isSolved h \<and>
      (\<forall>r < 6. \<forall>c < 6.
         (case cellAt puzzle r c of
            Num v \<Rightarrow> cellAt h r c = Num v
          | _ \<Rightarrow> (case cellAt h r c of Num v \<Rightarrow> 1 \<le> v \<and> v \<le> 6 | _ \<Rightarrow> False))))"

definition uniqueCompletion :: "SudokuGrid \<Rightarrow> SudokuGrid \<Rightarrow> bool" where
  "uniqueCompletion puzzle expected =
     (isCompletion puzzle expected \<and> (\<forall>h. isCompletion puzzle h \<longrightarrow> h = expected))"

definition allOnes :: SudokuGrid where
  "allOnes = replicate 6 (replicate 6 (Num 1))"

text \<open>Every cell of the board is filled.\<close>

definition noNull :: "SudokuGrid \<Rightarrow> bool" where
  "noNull g = (\<forall>r < 6. \<forall>c < 6. cellAt g r c \<noteq> Null)"

text \<open>
  The state of the scan of \<open>solve\<close>: every cell before \<open>(row, col)\<close> in row-major order
  is filled, and \<open>(row, col)\<close> is a cell of the board or the position after the last.
\<close>

definition filledBefore :: "SudokuGrid \<Rightarrow> nat \<Rightarrow> nat \<Rightarrow> bool" where
  "filledBefore g row col =
     (\<forall>r < 6. \<forall>c < 6. r * 6 + c < row * 6 + col \<longrightarrow> cellAt g r c \<noteq> Null)"

definition posOK :: "nat \<Rightarrow> nat \<Rightarrow> bool" where
  "posOK row col = ((row < 6 \<and> col < 6) \<or> (row = 6 \<and> col = 0))"

section \<open>SudokuGenerator: shuffle and solution synthesis (shared/utils/sudoku.ts)\<close>

text \<open>
  \<open>Math.random()\<close>: the sequence \<open>rnd\<close> holds the numbers the calls return, in order of
  the calls; the state is the number of calls made so far.  Nothing is assumed of the
  numbers: the Fisher-Yates loop swaps only when both indices hold an element.
\<close>

primrec shuffleFrom :: "(nat \<Rightarrow> real) \<Rightarrow> nat \<Rightarrow> 'a list \<times> nat \<Rightarrow> 'a list \<times> nat" where
  "shuffleFrom rnd 0 st = st"
| "shuffleFrom rnd (Suc k) st =
     (let i = Suc k;
          shuffled = fst st;
          j = \<lfloor>rnd (snd st) * real (i + 1)\<rfloor>
      in shuffleFrom rnd k
           (if i < length shuffled \<and> 0 \<le> j \<and> nat j < length shuffled
            then shuffled[i := shuffled ! nat j, nat j := shuffled ! i]
            else shuffled,
            snd st + 1))"

definition shuffleArray :: "(nat \<Rightarrow> real) \<Rightarrow> nat \<Rightarrow> 'a list \<Rightarrow> 'a list \<times> nat" where
  "shuffleArray rnd pos array = shuffleFrom rnd (length array - 1) (array, pos)"

text \<open>The first empty cell in the row-major scan of \<open>fillGrid\<close>.\<close>

definition firstEmpty :: "SudokuGrid \<Rightarrow> (nat \<times> nat) option" where
  "firstEmpty grid = find (\<lambda>(row, col). cellAt grid row col = Null) allPositions"

text \<open>
  \<open>fillGrid\<close> mutates the grid in place and returns a boolean; the model threads the
  grid and the random state.  As for \<open>solve\<close>, the first argument bounds the depth of
  the recursion and the loop over the shuffled numbers is a function of its own.
\<close>

type_synonym fillState = "SudokuGrid \<times> nat"

fun fillNums ::
  "(fillState \<Rightarrow> (bool \<times> fillState) option) \<Rightarrow> nat \<Rightarrow> nat \<Rightarrow> int list \<Rightarrow> fillState
     \<Rightarrow> (bool \<times> fillState) option" where
  "fillNums rec row col [] st = Some (False, st)"
| "fillNums rec row col (num # rest) (grid, pos) =
     (if isValidMove grid row col num then
        (case rec (setCell grid row col (Num num), pos) of
           None \<Rightarrow> None
         | Some (ok, grid1, pos1) \<Rightarrow>
             if ok then Some (True, grid1, pos1)
             else fillNums rec row col rest (setCell grid1 row col Null, pos1))
      else fillNums rec row col rest (grid, pos))"

primrec fillGrid :: "nat \<Rightarrow> (nat \<Rightarrow> real) \<Rightarrow> fillState \<Rightarrow> (bool \<times> fillState) option" where
  "fillGrid 0 rnd st = None"
| "fillGrid (Suc fuel) rnd st =
     (case firstEmpty (fst st) of
        None \<Rightarrow> Some (True, st)
      | Some (row, col) \<Rightarrow>
          (let (numbers, pos1) = shuffleArray rnd (snd st) [1, 2, 3, 4, 5, 6]
           in fillNums (fillGrid fuel rnd) row col numbers (fst st, pos1)))"

definition emptyGrid :: SudokuGrid where
  "emptyGrid = replicate GRID_SIZE (replicate GRID_SIZE Null)"

text \<open>\<open>generateCompleteSolution\<close> ignores the boolean and returns the grid.\<close>

definition generateCompleteSolution :: "nat \<Rightarrow> (nat \<Rightarrow> real) \<Rightarrow> nat \<Rightarrow> (SudokuGrid \<times> nat) option" where
  "generateCompleteSolution fuel rnd pos = map_option snd (fillGrid fuel rnd (emptyGrid, pos))"

text \<open>A unit of six cells that holds each of the numbers 1..6 once.\<close>

definition isPermutation1to6 :: "cell list \<Rightarrow> bool" where
  "isPermutation1to6 unit =
     (length unit = 6 \<and> distinct (nums unit) \<and> set (nums unit) = {1, 2, 3, 4, 5, 6})"

text \<open>The empty cells of the board.\<close>

definition emptyCells :: "SudokuGrid \<Rightarrow> (nat \<times> nat) set" where
  "emptyCells g = {(r, c). r < 6 \<and> c < 6 \<and> cellAt g r c = Null}"
section \<open>Candidates of a cell\<close>

lemma set_fold_deleteCell:
  "set (fold deleteCell cs s) = set s - {v. Num v \<in> set cs}"
proof (induction cs arbitrary: s)
  case Nil
  then show ?case by simp
next
  case (Cons c cs)
  then show ?case by (cases c) auto
qed

lemma set_fold_deleteCell_idx:
  "set (fold (\<lambda>i. deleteCell (f i)) is s) = set s - {v. \<exists>i \<in> set is. f i = Num v}"
proof (induction "is" arbitrary: s)
  case Nil
  then show ?case by simp
next
  case (Cons i "is")
  then show ?case by (cases "f i") auto
qed

lemma set_fold_deleteCell_box:
  "set (fold (\<lambda>r cs. fold (\<lambda>c. deleteCell (f r c)) js cs) is s)
     = set s - {v. \<exists>i \<in> set is. \<exists>j \<in> set js. f i j = Num v}"
proof (induction "is" arbitrary: s)
  case Nil
  then show ?case by simp
next
  case (Cons i "is")
  then show ?case by (auto simp: set_fold_deleteCell_idx)
qed

lemma distinct_fold_deleteCell: "distinct s \<Longrightarrow> distinct (fold deleteCell cs s)"
proof (induction cs arbitrary: s)
  case Nil
  then show ?case by simp
next
  case (Cons c cs)
  then show ?case by (cases c) (auto simp: distinct_removeAll)
qed

lemma in_box_range_rows: "r \<in> set [row div 2 * 2 ..< row div 2 * 2 + 2] \<longleftrightarrow> r div 2 = row div 2"
  for r row :: nat
  by auto

lemma in_box_range_cols: "c \<in> set [col div 3 * 3 ..< col div 3 * 3 + 3] \<longleftrightarrow> c div 3 = col div 3"
  for c col :: nat
  by auto


text \<open>
  C6: for an empty cell of a 6 by 6 grid, \<open>calculateCellCandidates\<close> returns exactly
  the values 1..6 that occur neither in the cell's row, nor in its column, nor in its
  3 by 2 box.
\<close>

theorem calculateCellCandidates_spec:
  assumes "length grid = 6" and "\<forall>r \<in> set grid. length r = 6"
    and "row < 6" and "col < 6" and "cellAt grid row col = Null"
  shows "set (calculateCellCandidates grid row col) =
           {1 .. 6}
           - {v. \<exists>c < 6. cellAt grid row c = Num v}
           - {v. \<exists>r < 6. cellAt grid r col = Num v}
           - {v. \<exists>r < 6. \<exists>c < 6. r div 2 = row div 2 \<and> c div 3 = col div 3
                              \<and> cellAt grid r c = Num v}"
proof -
  have len: "length (grid ! row) = 6" using assms by simp
  have rowset: "{v. Num v \<in> set (grid ! row)} = {v. \<exists>c < 6. cellAt grid row c = Num v}"
    using assms len by (auto simp: cellAt_def rowAt_def elemAt_def in_set_conv_nth)
  have boxset: "{v. \<exists>r \<in> set [row div 2 * 2 ..< row div 2 * 2 + 2].
                   \<exists>c \<in> set [col div 3 * 3 ..< col div 3 * 3 + 3]. cellAt grid r c = Num v}
        = {v. \<exists>r < 6. \<exists>c < 6. r div 2 = row div 2 \<and> c div 3 = col div 3
                              \<and> cellAt grid r c = Num v}"
    (is "?L = ?R")
  proof
    show "?L \<subseteq> ?R"
    proof
      fix v assume "v \<in> ?L"
      then obtain r c where "r \<in> set [row div 2 * 2 ..< row div 2 * 2 + 2]"
        and "c \<in> set [col div 3 * 3 ..< col div 3 * 3 + 3]" and cv: "cellAt grid r c = Num v"
        by blast
      then have rc: "r div 2 = row div 2" "c div 3 = col div 3" "cellAt grid r c = Num v"
        unfolding in_box_range_rows in_box_range_cols by simp_all
      from rc assms(3,4) have "r < 6" "c < 6" by presburger+
      with rc show "v \<in> ?R" by blast
    qed
    show "?R \<subseteq> ?L"
    proof
      fix v assume "v \<in> ?R"
      then obtain r c where "r div 2 = row div 2" "c div 3 = col div 3" "cellAt grid r c = Num v"
        by blast
      then have "r \<in> set [row div 2 * 2 ..< row div 2 * 2 + 2]"
        and "c \<in> set [col div 3 * 3 ..< col div 3 * 3 + 3]" and "cellAt grid r c = Num v"
        unfolding in_box_range_rows in_box_range_cols by simp_all
      then show "v \<in> ?L" by blast
    qed
  qed
  have colset: "{v. \<exists>r \<in> set [0 ..< 6]. cellAt grid r col = Num v} = {v. \<exists>r < 6. cellAt grid r col = Num v}"
    by auto
  have base: "set [1, 2, 3, 4, 5, 6 :: int] = {1 .. 6}" by auto
  have "set (calculateCellCandidates grid row col) =
          set [1, 2, 3, 4, 5, 6 :: int] - {v. Num v \<in> set (grid ! row)}
          - {v. \<exists>r \<in> set [0 ..< 6]. cellAt grid r col = Num v}
          - {v. \<exists>r \<in> set [row div 2 * 2 ..< row div 2 * 2 + 2].
                   \<exists>c \<in> set [col div 3 * 3 ..< col div 3 * 3 + 3]. cellAt grid r c = Num v}"
    using assms(1,3,5)
    by (simp add: calculateCellCandidates_def rowAt_def Let_def set_fold_deleteCell
          set_fold_deleteCell_idx set_fold_deleteCell_box del: set_upt upt_Suc)
  then show ?thesis
    unfolding rowset colset boxset base .
qed

theorem calculateCellCandidates_spec_witness:
  "length oneEmptyCell = 6 \<and> cellAt oneEmptyCell 2 3 = Null
   \<and> set (calculateCellCandidates oneEmptyCell 2 3) =
           {1 .. 6}
           - {v. \<exists>c < 6. cellAt oneEmptyCell 2 c = Num v}
           - {v. \<exists>r < 6. cellAt oneEmptyCell r 3 = Num v}
           - {v. \<exists>r < 6. \<exists>c < 6. r div 2 = (2::nat) div 2 \<and> c div 3 = (3::nat) div 3
                              \<and> cellAt oneEmptyCell r c = Num v}"
proof -
  have a: "length oneEmptyCell = 6" by code_simp
  have b: "\<forall>r \<in> set oneEmptyCell. length r = 6" by code_simp
  have c: "cellAt oneEmptyCell 2 3 = Null" by code_simp
  show ?thesis
    using calculateCellCandidates_spec [OF a b _ _ c] a c by simp
qed

section \<open>Board analysis\<close>

text \<open>
  C4: \<open>analyzeBoard\<close> reports \<open>isValid\<close> exactly when \<open>isValidGrid\<close> holds and the
  error list is empty, and \<open>isSolvable\<close> exactly when \<open>isValid\<close> holds and a move is
  available or the grid is solved.
\<close>

theorem analyzeBoard_flags:
  "ba_isValid (analyzeBoard grid) = (isValidGrid grid \<and> ba_errors (analyzeBoard grid) = [])
   \<and> ba_isSolvable (analyzeBoard grid)
       = (ba_isValid (analyzeBoard grid)
          \<and> (ba_availableMoves (analyzeBoard grid) \<noteq> [] \<or> isSolved grid))"
  by (simp add: analyzeBoard_def Let_def)


theorem analyzeBoard_flags_witness:
  "ba_isValid (analyzeBoard exampleSolution)
     = (isValidGrid exampleSolution \<and> ba_errors (analyzeBoard exampleSolution) = [])
   \<and> ba_isSolvable (analyzeBoard exampleSolution)
       = (ba_isValid (analyzeBoard exampleSolution)
          \<and> (ba_availableMoves (analyzeBoard exampleSolution) \<noteq> [] \<or> isSolved exampleSolution))"
  using analyzeBoard_flags [of exampleSolution] by simp

text \<open>
  C8 (evaluation at a failing input): \<open>deadCellGrid\<close> is a valid grid whose only empty
  cell without candidates is the top-left one, and no filled cell breaks a unit; yet
  \<open>detectErrors\<close> reports seven \<open>no_solution\<close> errors, one for the dead cell and one
  for each filled cell, because \<open>calculateAllCandidates\<close> gives every filled cell an
  empty set and \<open>findCellsWithNoCandidates\<close> does not look at the grid.
\<close>

theorem detectErrors_deadCellGrid:
  "isValidGrid deadCellGrid
   \<and> filter (\<lambda>(r, c). cellAt deadCellGrid r c = Null
                        \<and> calculateCellCandidates deadCellGrid r c = []) allPositions = [(0, 0)]
   \<and> map (\<lambda>e. (el_row e, el_col e, el_type e)) (detectErrors deadCellGrid None)
       = [(0, 0, No_solution), (0, 3, No_solution), (0, 4, No_solution),
          (2, 0, No_solution), (3, 0, No_solution), (4, 0, No_solution),
          (5, 0, No_solution)]
   \<and> ba_errors (analyzeBoard deadCellGrid) = detectErrors deadCellGrid None"
  by code_simp

theorem detectErrors_deadCellGrid_witness:
  "length (detectErrors deadCellGrid None) = 7"
proof -
  have "length (map (\<lambda>e. (el_row e, el_col e, el_type e)) (detectErrors deadCellGrid None)) = 7"
    using detectErrors_deadCellGrid by simp
  then show ?thesis by simp
qed

text \<open>
  C5 (evaluation at a failing input): on the valid grid \<open>oneEmptyCell\<close>, whose single
  empty cell sees the other five values, the naked single is found, but
  \<open>findNextMove\<close> returns \<open>null\<close>: the 35 filled cells are reported as errors.
\<close>

theorem findNextMove_oneEmptyCell:
  "isValidGrid oneEmptyCell
   \<and> map (\<lambda>m. (hm_row m, hm_col m, hm_value m, hm_technique m, hm_confidence m))
         (ba_availableMoves (analyzeBoard oneEmptyCell)) = [(2, 3, 5, NAKED_SINGLE, 1)]
   \<and> length (ba_errors (analyzeBoard oneEmptyCell)) = 35
   \<and> findNextMove oneEmptyCell = None"
  by code_simp

theorem findNextMove_oneEmptyCell_witness: "findNextMove oneEmptyCell = None"
  using findNextMove_oneEmptyCell by simp

section \<open>Frame properties on the store\<close>

lemma getRow_append_old: "a < length st \<Longrightarrow> getRow (st @ xs) a = getRow st a"
  by (simp add: getRow_def nth_append)

lemma copyRows_eq:
  "list_all (\<lambda>a. a < length st) rs \<Longrightarrow>
     copyRows st rs = ([length st ..< length st + length rs], st @ map (\<lambda>r. RowObj (getRow st r)) rs)"
proof (induction rs arbitrary: st)
  case Nil
  then show ?case by simp
next
  case (Cons r rs)
  let ?st1 = "st @ [RowObj (getRow st r)]"
  from Cons.prems have all1: "list_all (\<lambda>a. a < length ?st1) rs"
    by (auto simp: list_all_iff)
  have m: "map (\<lambda>x. RowObj (getRow ?st1 x)) rs = map (\<lambda>x. RowObj (getRow st x)) rs"
    using Cons.prems by (auto simp: list_all_iff getRow_append_old)
  have u: "[length st ..< length st + length (r # rs)]
             = length st # [length ?st1 ..< length ?st1 + length rs]"
    by (simp add: upt_conv_Cons del: upt_Suc)
  show ?case
    unfolding u using Cons.IH [OF all1] m by (simp add: alloc_def del: upt_Suc)
qed

lemma deepCopyGrid_eq:
  assumes "gridAllocated st g"
  shows "deepCopyGrid st g =
           (length st + length (getRefs st g),
            st @ map (\<lambda>r. RowObj (getRow st r)) (getRefs st g)
               @ [GridObj [length st ..< length st + length (getRefs st g)]])"
  using assms by (simp add: deepCopyGrid_def gridAllocated_def copyRows_eq alloc_def)

lemma getRefs_append_old: "a < length st \<Longrightarrow> getRefs (st @ xs) a = getRefs st a"
  by (simp add: getRefs_def nth_append)

lemma viewGrid_deepCopy:
  assumes "gridAllocated st g" and "deepCopyGrid st g = (c, st')"
  shows "viewGrid st' c = viewGrid st g" and "take (length st) st' = st"
    and "getRefs st' c = [length st ..< length st + length (getRefs st g)]"
    and "length st' = length st + length (getRefs st g) + 1"
proof -
  let ?n = "length (getRefs st g)"
  note eq = deepCopyGrid_eq [OF assms(1)]
  from assms(2) have c: "c = length st + ?n"
    unfolding eq by simp
  from assms(2) have st': "st' = st @ map (\<lambda>r. RowObj (getRow st r)) (getRefs st g)
                              @ [GridObj [length st ..< length st + ?n]]"
    unfolding eq by auto
  show refs: "getRefs st' c = [length st ..< length st + ?n]"
    by (simp add: getRefs_def c st' nth_append)
  show "take (length st) st' = st" by (simp add: st')
  show "length st' = length st + ?n + 1" by (simp add: st')
  have "getRow st' (length st + i) = getRow st (getRefs st g ! i)" if "i < ?n" for i
    using that by (simp add: getRow_def st' nth_append)
  then have "map (getRow st') [length st ..< length st + ?n] = map (getRow st) (getRefs st g)"
    by (intro nth_equalityI) (auto simp: nth_append)
  then show "viewGrid st' c = viewGrid st g"
    by (simp add: viewGrid_def refs)
qed

lemma prefix_nth:
  assumes "take (length st) st' = st" and "a < length st"
  shows "st' ! a = st ! a" and "a < length st'"
proof -
  have "min (length st') (length st) = length st"
    using arg_cong [OF assms(1), of length] by simp
  then have "length st \<le> length st'" by linarith
  with assms(2) show "a < length st'" by simp
  have "take (length st) st' ! a = st' ! a" using assms(2) by simp
  with assms(1) show "st' ! a = st ! a" by simp
qed

lemma viewGrid_prefix:
  assumes "take (length st) st' = st" and "gridAllocated st g"
  shows "viewGrid st' g = viewGrid st g"
proof -
  from assms(2) have g: "g < length st" and rs: "\<forall>a \<in> set (getRefs st g). a < length st"
    by (simp_all add: gridAllocated_def list_all_iff)
  have refs: "getRefs st' g = getRefs st g"
    using prefix_nth [OF assms(1) g] g by (simp add: getRefs_def)
  have "getRow st' a = getRow st a" if "a \<in> set (getRefs st g)" for a
    using prefix_nth [OF assms(1), of a] rs that by (simp add: getRow_def)
  then show ?thesis by (simp add: viewGrid_def refs)
qed

lemma take_writeRow:
  "length st \<le> a \<Longrightarrow> take (length st) (writeRow st1 a col v) = take (length st) st1"
  by (simp add: writeRow_def)

lemma isValidMove_st_result:
  assumes "gridAllocated st grid"
  shows "fst (isValidMove_st st grid row col v) = isValidMove (viewGrid st grid) row col v"
    and "take (length st) (snd (isValidMove_st st grid row col v)) = st"
proof -
  obtain c st1 where dc: "deepCopyGrid st grid = (c, st1)" by (cases "deepCopyGrid st grid")
  note vc = viewGrid_deepCopy [OF assms dc]
  let ?n = "length (getRefs st grid)"
  let ?g = "viewGrid st grid"
  have ng: "length ?g = ?n" by (simp add: viewGrid_def)
  show "take (length st) (snd (isValidMove_st st grid row col v)) = st"
    using vc(2,3) by (simp add: isValidMove_st_def dc Let_def take_writeRow)
  show "fst (isValidMove_st st grid row col v) = isValidMove ?g row col v"
  proof (cases "v < 1 \<or> v > 6")
    case True
    then show ?thesis by (auto simp: isValidMove_st_def isValidMove_def)
  next
    case range: False
    show ?thesis
    proof (cases "row < ?n")
      case False
      with range show ?thesis
        using vc(3) ng by (simp add: isValidMove_st_def isValidMove_def dc rowAt_def)
    next
      case True
      let ?t = "length st + row"
      let ?st2 = "writeRow st1 ?t col (Num v)"
      have t: "getRefs st1 c ! row = ?t" using vc(3) True by simp
      have tlen: "?t < length st1" using vc(4) True by simp
      have rowt: "getRow st1 ?t = ?g ! row"
      proof -
        have "viewGrid st1 c ! row = getRow st1 ?t"
          using True vc(3) by (simp add: viewGrid_def)
        then show ?thesis using vc(1) by simp
      qed
      have refs2: "getRefs ?st2 c = getRefs st1 c"
      proof -
        have "c < length st1" "?t \<noteq> c" "st1 ! c = GridObj [length st ..< length st + ?n]"
          using vc(3,4) True dc assms by (auto simp: deepCopyGrid_eq nth_append)
        then show ?thesis by (simp add: getRefs_def writeRow_def)
      qed
      have row2: "getRow ?st2 a = (if a = ?t then jsSet (?g ! row) col (Num v) else getRow st1 a)" for a
        using tlen rowt by (auto simp: getRow_def writeRow_def)
      have view2: "viewGrid ?st2 c = setCell ?g row col (Num v)"
      proof (rule nth_equalityI)
        show "length (viewGrid ?st2 c) = length (setCell ?g row col (Num v))"
          using vc(3) by (simp add: viewGrid_def refs2 setCell_def)
        fix i assume "i < length (viewGrid ?st2 c)"
        then have i: "i < ?n" using vc(3) by (simp add: viewGrid_def refs2)
        have "viewGrid st1 c ! i = getRow st1 (length st + i)"
          using i vc(3) by (simp add: viewGrid_def)
        then have old: "getRow st1 (length st + i) = ?g ! i" using vc(1) by simp
        show "viewGrid ?st2 c ! i = setCell ?g row col (Num v) ! i"
          using i vc(3) ng old True
          by (simp add: viewGrid_def refs2 row2 setCell_def nth_list_update)
      qed
      have rowv: "getRow ?st2 ?t = setCell ?g row col (Num v) ! row"
        using True ng by (simp add: row2 setCell_def)
      from range True show ?thesis
        using vc(3) ng t
        by (simp add: isValidMove_st_def isValidMove_def dc rowAt_def Let_def view2 rowt
              del: BOX_HEIGHT_def BOX_WIDTH_def)
    qed
  qed
qed

text \<open>
  C9: \<open>isValidMove\<close> leaves its grid argument unchanged.  Whatever the row, the
  column and the value, and whatever boolean is returned, the grid holds the same cells
  after the call as before; indeed no object that existed before the call is changed.
  The boolean is the one the content-level \<open>isValidMove\<close> computes.
\<close>

theorem isValidMove_leaves_grid_unchanged:
  assumes "gridAllocated st grid"
  shows "viewGrid (snd (isValidMove_st st grid row col v)) grid = viewGrid st grid
         \<and> take (length st) (snd (isValidMove_st st grid row col v)) = st
         \<and> fst (isValidMove_st st grid row col v) = isValidMove (viewGrid st grid) row col v"
  using isValidMove_st_result [OF assms, of row col v]
    viewGrid_prefix [OF isValidMove_st_result(2) [OF assms, of row col v] assms]
  by simp

theorem isValidMove_leaves_grid_unchanged_witness:
  "viewGrid (snd (isValidMove_st exampleStore 6 2 3 5)) 6 = oneEmptyCell
   \<and> viewGrid exampleStore 6 = oneEmptyCell
   \<and> fst (isValidMove_st exampleStore 6 2 3 5) = True"
proof -
  have a: "gridAllocated exampleStore 6" by code_simp
  have v: "viewGrid exampleStore 6 = oneEmptyCell" by code_simp
  have m: "isValidMove oneEmptyCell 2 3 5" by code_simp
  show ?thesis
    using isValidMove_leaves_grid_unchanged [OF a, of 2 3 5] v m by simp
qed

lemma sameFrom_refl: "sameFrom n st st"
  by (simp add: sameFrom_def)

lemma sameFrom_nth:
  assumes "sameFrom n st1 st2" and "n \<le> a" and "a < length st1"
  shows "st2 ! a = st1 ! a"
proof -
  have len: "length st2 = length st1" and d: "drop n st2 = drop n st1"
    using assms(1) by (simp_all add: sameFrom_def)
  have "st2 ! a = drop n st2 ! (a - n)"
    using assms(2,3) len by simp
  also have "\<dots> = drop n st1 ! (a - n)"
    by (simp only: d)
  also have "\<dots> = st1 ! a"
    using assms(2,3) by simp
  finally show ?thesis .
qed

lemma sameFrom_update:
  assumes "sameFrom n st1 st2" and "a < n"
  shows "sameFrom n st1 (st2[a := ob])"
  using assms by (simp add: sameFrom_def drop_update_cancel)

lemma viewGrid_sameFrom:
  assumes "sameFrom n st1 st2" and "n \<le> g" and "list_all (\<lambda>a. n \<le> a) (getRefs st1 g)"
  shows "viewGrid st2 g = viewGrid st1 g" and "getRefs st2 g = getRefs st1 g"
proof -
  have len: "length st2 = length st1" using assms(1) by (simp add: sameFrom_def)
  show refs: "getRefs st2 g = getRefs st1 g"
    using sameFrom_nth [OF assms(1,2)] len by (simp add: getRefs_def)
  have "getRow st2 a = getRow st1 a" if "a \<in> set (getRefs st1 g)" for a
  proof -
    from that assms(3) have "n \<le> a" by (simp add: list_all_iff)
    then show ?thesis using sameFrom_nth [OF assms(1), of a] len by (simp add: getRow_def)
  qed
  then show "viewGrid st2 g = viewGrid st1 g" by (simp add: viewGrid_def refs)
qed

lemma getRefs_update_row:
  "getRefs (s[a := RowObj xs]) g = (if a = g then [] else getRefs s g)"
  by (auto simp: getRefs_def)

lemma writeCell_keeps_newer:
  assumes "sameFrom n st1 s" and "list_all (\<lambda>a. a < n) (getRefs s g)"
    and "writeCell s g r c x = Some s'"
  shows "sameFrom n st1 s' \<and> list_all (\<lambda>a. a < n) (getRefs s' g)"
proof -
  from assms(3) have r: "r < length (getRefs s g)"
    and s': "s' = s[getRefs s g ! r := RowObj (jsSet (getRow s (getRefs s g ! r)) c x)]"
    by (auto simp: writeCell_def writeRow_def split: if_splits)
  let ?a = "getRefs s g ! r"
  have a: "?a < n" using assms(2) r by (simp add: list_all_length)
  have "set (getRefs s' g) \<subseteq> set (getRefs s g)"
    unfolding s' getRefs_update_row by simp
  with assms(2) have "list_all (\<lambda>a. a < n) (getRefs s' g)"
    by (auto simp: list_all_iff)
  with sameFrom_update [OF assms(1) a] s' show ?thesis by simp
qed

lemma writeCells_keeps_newer:
  "sameFrom n st1 s \<Longrightarrow> list_all (\<lambda>a. a < n) (getRefs s g) \<Longrightarrow> writeCells s g ws = Some s'
     \<Longrightarrow> sameFrom n st1 s'"
proof (induction ws arbitrary: s)
  case Nil
  then show ?case by simp
next
  case (Cons w ws)
  obtain r c x where w: "w = (r, c, x)" by (cases w)
  from Cons.prems(3) w obtain s1 where s1: "writeCell s g r c x = Some s1"
    and rest: "writeCells s1 g ws = Some s'"
    by (auto split: option.splits)
  from writeCell_keeps_newer [OF Cons.prems(1,2) s1] Cons.IH rest show ?case by blast
qed

text \<open>
  C10: \<open>addMove\<close> records a deep copy of the grid.  Whatever cells of the caller's grid
  are written afterwards, the entry returned by \<open>getLastMove\<close> and the grid returned
  by \<open>getBoardStateAtIndex\<close> hold the content the grid had when the move was added.
\<close>

theorem addMove_snapshot_isolated:
  assumes "gridAllocated st grid"
    and "addMove now st history move grid wasHintUsed technique = (history', st1)"
    and "writeCells st1 grid ws = Some st2"
  shows "\<exists>e copy st3.
           getLastMove history' = Some e \<and> he_move e = move
           \<and> viewGrid st2 (he_boardStateBefore e) = viewGrid st grid
           \<and> getBoardStateAtIndex st2 history' (length history' - 1) = (Some copy, st3)
           \<and> viewGrid st3 copy = viewGrid st grid"
proof -
  obtain c where dc: "deepCopyGrid st grid = (c, st1)"
    using assms(2) by (cases "deepCopyGrid st grid") (auto simp: addMove_def Let_def)
  note vc = viewGrid_deepCopy [OF assms(1) dc]
  let ?e = "\<lparr> he_move = move, he_timestamp = now, he_boardStateBefore = c,
              he_wasHintUsed = wasHintUsed, he_technique = technique \<rparr>"
  let ?h1 = "history @ [?e]"
  from assms(2) dc have h': "history' = (if length ?h1 > maxHistorySize
          then drop (length ?h1 - maxHistorySize) ?h1 else ?h1)"
    by (simp add: addMove_def Let_def)
  have ne: "history' \<noteq> []" and lst: "last history' = ?e"
    unfolding h' by (simp_all add: maxHistorySize_def)
  then have nth: "history' ! (length history' - 1) = ?e"
    by (simp add: last_conv_nth)
  have last: "getLastMove history' = Some ?e"
    using ne nth by (simp add: getLastMove_def)
  have g: "grid < length st" and old: "list_all (\<lambda>a. a < length st) (getRefs st grid)"
    using assms(1) by (simp_all add: gridAllocated_def)
  have refs1: "getRefs st1 grid = getRefs st grid"
    using prefix_nth [OF vc(2) g] g by (simp add: getRefs_def)
  have sf: "sameFrom (length st) st1 st2"
    using writeCells_keeps_newer [OF sameFrom_refl _ assms(3), of "length st"] old refs1 by simp
  have cge: "length st \<le> c" using dc assms(1) by (simp add: deepCopyGrid_eq)
  have newrefs: "list_all (\<lambda>a. length st \<le> a) (getRefs st1 c)"
    using vc(3) by (simp add: list_all_iff)
  note v2 = viewGrid_sameFrom [OF sf cge newrefs]
  have view2: "viewGrid st2 c = viewGrid st grid" using v2(1) vc(1) by simp
  have len2: "length st2 = length st1" using sf by (simp add: sameFrom_def)
  have alloc2: "gridAllocated st2 c"
    using v2(2) vc(3,4) len2 dc assms(1)
    by (simp add: gridAllocated_def list_all_iff deepCopyGrid_eq)
  obtain copy st3 where dc2: "deepCopyGrid st2 c = (copy, st3)" by (cases "deepCopyGrid st2 c")
  have view3: "viewGrid st3 copy = viewGrid st grid"
    using viewGrid_deepCopy(1) [OF alloc2 dc2] view2 by simp
  have "getBoardStateAtIndex st2 history' (length history' - 1) = (Some copy, st3)"
    using ne nth dc2 by (simp add: getBoardStateAtIndex_def)
  with last view2 view3 show ?thesis by simp
qed

theorem addMove_snapshot_isolated_witness:
  "\<exists>e copy st3.
     getLastMove (fst (addMove 0 exampleStore [] (clearMove 2 3) 6 False None)) = Some e
     \<and> viewGrid (the (writeCells (snd (addMove 0 exampleStore [] (clearMove 2 3) 6 False None)) 6
                       [(2, 3, Num 4), (0, 0, Null)]))
         (he_boardStateBefore e) = oneEmptyCell
     \<and> getBoardStateAtIndex
         (the (writeCells (snd (addMove 0 exampleStore [] (clearMove 2 3) 6 False None)) 6
                 [(2, 3, Num 4), (0, 0, Null)]))
         (fst (addMove 0 exampleStore [] (clearMove 2 3) 6 False None)) 0 = (Some copy, st3)
     \<and> viewGrid st3 copy = oneEmptyCell"
proof -
  let ?r = "addMove 0 exampleStore [] (clearMove 2 3) 6 False None"
  let ?ws = "[(2, 3, Num 4), (0, 0, Null)]"
  have a: "gridAllocated exampleStore 6" by code_simp
  have b: "?r = (fst ?r, snd ?r)" by simp
  have c: "writeCells (snd ?r) 6 ?ws = Some (the (writeCells (snd ?r) 6 ?ws))" by code_simp
  have v: "viewGrid exampleStore 6 = oneEmptyCell" by code_simp
  have l: "length (fst ?r) - 1 = 0" by code_simp
  show ?thesis
    using addMove_snapshot_isolated [OF a b c] v l by auto
qed

subsection \<open>Basic facts about reads after allocation and property writes\<close>

lemma ext_refl: "ext st st"
  by (simp add: ext_def)

lemma ext_length: "ext st0 st \<Longrightarrow> length st0 \<le> length st"
  unfolding ext_def using prefix_nth(2) [of st0 st] by (metis linorder_not_less nat_neq_iff take_all_iff length_take min.absorb2 nat_le_linear)

lemma ext_append: "ext st0 st \<Longrightarrow> ext st0 (st @ xs)"
  using ext_length [of st0 st] by (simp add: ext_def)

lemma ext_update: "ext st0 st \<Longrightarrow> length st0 \<le> a \<Longrightarrow> ext st0 (st[a := ob])"
  by (simp add: ext_def)

lemma ext_nth: "ext st0 st \<Longrightarrow> a < length st0 \<Longrightarrow> st ! a = st0 ! a"
  unfolding ext_def by (rule prefix_nth(1))

lemma ext_getDict: "ext st0 st \<Longrightarrow> a < length st0 \<Longrightarrow> getDict st a = getDict st0 a"
  using ext_nth [of st0 st a] ext_length [of st0 st] by (simp add: getDict_def)

lemma ext_getSet: "ext st0 st \<Longrightarrow> a < length st0 \<Longrightarrow> getSet st a = getSet st0 a"
  using ext_nth [of st0 st a] ext_length [of st0 st] by (simp add: getSet_def)

lemma ext_getProp: "ext st0 st \<Longrightarrow> a < length st0 \<Longrightarrow> getProp st a k = getProp st0 a k"
  by (simp add: getProp_def ext_getDict)

lemma getDict_Some_less: "getDict st a = Some d \<Longrightarrow> a < length st"
  by (simp add: getDict_def split: if_splits)

lemma getProp_Some_less: "getProp st a k = Some v \<Longrightarrow> a < length st"
  by (auto simp: getProp_def dest: getDict_Some_less split: option.splits)

lemma length_setProp [simp]: "length (setProp st a k v) = length st"
  by (simp add: setProp_def split: option.splits)

lemma getSet_setProp [simp]: "getSet (setProp st a k v) x = getSet st x"
  by (auto simp: setProp_def getSet_def getDict_def nth_list_update split: option.splits obj.splits if_splits)

lemma getDict_setProp_other: "b \<noteq> a \<Longrightarrow> getDict (setProp st a k v) b = getDict st b"
  by (auto simp: setProp_def getDict_def split: option.splits)

lemma getProp_setProp_other: "b \<noteq> a \<Longrightarrow> getProp (setProp st a k v) b k' = getProp st b k'"
  by (simp add: getProp_def getDict_setProp_other)

lemma getDict_setProp_same:
  "getDict st a = Some d \<Longrightarrow>
     getDict (setProp st a k v) a = Some ((k, v) # filter (\<lambda>p. fst p \<noteq> k) d)"
  by (auto simp: setProp_def getDict_def split: if_splits)

lemma map_of_filter_other: "k' \<noteq> k \<Longrightarrow> map_of (filter (\<lambda>p. fst p \<noteq> k) d) k' = map_of d k'"
  by (induction d) auto

lemma getProp_setProp_same:
  "getDict st a = Some d \<Longrightarrow>
     getProp (setProp st a k v) a k' = (if k' = k then Some v else getProp st a k')"
  by (simp add: getProp_def getDict_setProp_same map_of_filter_other)

lemma ext_setProp: "ext st0 st \<Longrightarrow> length st0 \<le> a \<Longrightarrow> ext st0 (setProp st a k v)"
  by (simp add: setProp_def ext_update split: option.splits)

lemma getDict_append_old: "a < length st \<Longrightarrow> getDict (st @ xs) a = getDict st a"
  by (simp add: getDict_def nth_append)

lemma getProp_append_old: "a < length st \<Longrightarrow> getProp (st @ xs) a k = getProp st a k"
  by (simp add: getProp_def getDict_append_old)

lemma getSet_append_old: "a < length st \<Longrightarrow> getSet (st @ xs) a = getSet st a"
  by (simp add: getSet_def nth_append)

lemma getSet_append_new [simp]: "getSet (st @ [SetObj s]) (length st) = s"
  by (simp add: getSet_def)

lemma getDict_append_new [simp]: "getDict (st @ [DictObj d]) (length st) = Some d"
  by (simp add: getDict_def)

text \<open>Reads of the input map are the same in every extension of the store.\<close>

lemma candRef_stable:
  assumes "ext st0 st" and "cellAllocated st0 cands r c"
  shows "candRef st cands r c = candRef st0 cands r c"
proof -
  from assms(2) have cl: "cands < length st0" by (simp add: cellAllocated_def)
  have g1: "getProp st cands r = getProp st0 cands r" by (rule ext_getProp [OF assms(1) cl])
  show ?thesis
  proof (cases "getProp st0 cands r")
    case None
    then show ?thesis by (simp add: candRef_def g1)
  next
    case (Some ro)
    with assms(2) have "ro < length st0" by (simp add: cellAllocated_def)
    from ext_getProp [OF assms(1) this] show ?thesis by (simp add: candRef_def g1 Some)
  qed
qed

lemma candRef_allocated:
  "cellAllocated st0 cands r c \<Longrightarrow> candRef st0 cands r c = Some a \<Longrightarrow> a < length st0"
  by (auto simp: cellAllocated_def candRef_def split: option.splits)

lemma copyCell_props:
  assumes e: "ext st0 st" and ro: "length st0 \<le> ro" and d: "getDict st ro \<noteq> None"
    and ok: "cellAllocated st0 cands r c"
    and inb: "\<And>k x. getProp st ro k = Some x \<Longrightarrow> x < length st"
    and lob: "\<And>k x. getProp st ro k = Some x \<Longrightarrow> length st0 \<le> x"
  defines "st' \<equiv> copyCell cands ro r c st"
  shows "ext st0 st'" and "length st' = length st + 1" and "getDict st' ro \<noteq> None"
    and "\<And>b. b \<noteq> ro \<Longrightarrow> b < length st \<Longrightarrow> getDict st' b = getDict st b"
    and "\<And>x. x < length st \<Longrightarrow> getSet st' x = getSet st x"
    and "\<And>k. rowView st' ro k = (if k = c then Some (srcVal st0 cands r c) else rowView st ro k)"
    and "\<And>k x. getProp st' ro k = Some x \<Longrightarrow> x < length st'"
    and "\<And>k x. getProp st' ro k = Some x \<Longrightarrow> length st0 \<le> x"
proof -
  have cr: "candRef st cands r c = candRef st0 cands r c" by (rule candRef_stable [OF e ok])
  have src: "(case candRef st cands r c of Some a \<Rightarrow> getSet st a | None \<Rightarrow> []) = srcVal st0 cands r c"
  proof (cases "candRef st0 cands r c")
    case None
    then show ?thesis by (simp add: cr srcVal_def)
  next
    case (Some a)
    from ext_getSet [OF e candRef_allocated [OF ok Some]] show ?thesis
      by (simp add: cr srcVal_def Some)
  qed
  let ?st1 = "st @ [SetObj (srcVal st0 cands r c)]"
  have st': "st' = setProp ?st1 ro c (length st)"
    by (simp add: st'_def copyCell_def alloc_def src)
  from d obtain dd where dd: "getDict st ro = Some dd" by auto
  have rol: "ro < length st" by (rule getDict_Some_less [OF dd])
  have dd1: "getDict ?st1 ro = Some dd" using dd rol by (simp add: getDict_append_old)
  show "ext st0 st'" unfolding st' by (intro ext_setProp ext_append e ro)
  show "length st' = length st + 1" by (simp add: st')
  show "getDict st' ro \<noteq> None" by (simp add: st' getDict_setProp_same [OF dd1])
  show "getDict st' b = getDict st b" if "b \<noteq> ro" "b < length st" for b
    using that by (simp add: st' getDict_setProp_other getDict_append_old)
  show "getSet st' x = getSet st x" if "x < length st" for x
    using that by (simp add: st' getSet_append_old)
  show "rowView st' ro k = (if k = c then Some (srcVal st0 cands r c) else rowView st ro k)" for k
  proof (cases "k = c")
    case True
    then show ?thesis
      by (simp add: rowView_def st' getProp_setProp_same [OF dd1])
  next
    case False
    have "getProp st' ro k = getProp st ro k"
      using False rol by (simp add: st' getProp_setProp_same [OF dd1] getProp_append_old)
    moreover have "getSet st' x = getSet st x" if "getProp st ro k = Some x" for x
      using inb [OF that] by (simp add: st' getSet_append_old)
    ultimately show ?thesis using False
      by (cases "getProp st ro k") (auto simp: rowView_def)
  qed
  show "x < length st'" if "getProp st' ro k = Some x" for k x
  proof (cases "k = c")
    case True
    with that show ?thesis by (simp add: st' getProp_setProp_same [OF dd1])
  next
    case False
    with that have "getProp st ro k = Some x"
      using rol by (simp add: st' getProp_setProp_same [OF dd1] getProp_append_old)
    from inb [OF this] show ?thesis by (simp add: st')
  qed
  show "length st0 \<le> x" if "getProp st' ro k = Some x" for k x
  proof (cases "k = c")
    case True
    with that have "x = length st" by (simp add: st' getProp_setProp_same [OF dd1])
    with ext_length [OF e] show ?thesis by simp
  next
    case False
    with that have "getProp st ro k = Some x"
      using rol by (simp add: st' getProp_setProp_same [OF dd1] getProp_append_old)
    from lob [OF this] show ?thesis .
  qed
qed

lemma stepRel_refl: "stepRel A st st"
  by (simp add: stepRel_def)

lemma stepRel_trans: "stepRel A st st1 \<Longrightarrow> stepRel B st1 st2 \<Longrightarrow> stepRel (A \<union> B) st st2"
  by (auto simp: stepRel_def)

lemma stepRel_alloc: "stepRel {} st (st @ [ob])"
  by (simp add: stepRel_def getDict_append_old getSet_append_old)

lemma stepRel_setProp: "stepRel {a} st (setProp st a k v)"
  by (simp add: stepRel_def getDict_setProp_other)

lemma copyCell_step:
  assumes "rowInv st0 ro st" and "cellAllocated st0 cands r c"
  shows "rowInv st0 ro (copyCell cands ro r c st)"
    and "stepRel {ro} st (copyCell cands ro r c st)"
    and "rowView (copyCell cands ro r c st) ro k
           = (if k = c then Some (srcVal st0 cands r c) else rowView st ro k)"
proof -
  from assms(1) have e: "ext st0 st" and ro: "length st0 \<le> ro" and d: "getDict st ro \<noteq> None"
    and inb: "\<And>k x. getProp st ro k = Some x \<Longrightarrow> x < length st"
    and lob: "\<And>k x. getProp st ro k = Some x \<Longrightarrow> length st0 \<le> x"
    by (auto simp: rowInv_def)
  note p = copyCell_props [OF e ro d assms(2) inb lob]
  show "rowInv st0 ro (copyCell cands ro r c st)"
    using p(1,3,7,8) ro by (auto simp: rowInv_def)
  show "stepRel {ro} st (copyCell cands ro r c st)"
    using p(2,4,5) by (auto simp: stepRel_def)
  show "rowView (copyCell cands ro r c st) ro k
           = (if k = c then Some (srcVal st0 cands r c) else rowView st ro k)"
    by (rule p(6))
qed

lemma copyCells_fold:
  assumes "rowInv st0 ro st" and "\<forall>c \<in> set cs. cellAllocated st0 cands r c"
  shows "rowInv st0 ro (fold (copyCell cands ro r) cs st)
         \<and> stepRel {ro} st (fold (copyCell cands ro r) cs st)
         \<and> (\<forall>k. rowView (fold (copyCell cands ro r) cs st) ro k
                  = (if k \<in> set cs then Some (srcVal st0 cands r k) else rowView st ro k))"
  using assms
proof (induction cs arbitrary: st)
  case Nil
  then show ?case by (simp add: stepRel_refl)
next
  case (Cons c cs)
  let ?st1 = "copyCell cands ro r c st"
  from Cons.prems have okc: "cellAllocated st0 cands r c" and oks: "\<forall>c \<in> set cs. cellAllocated st0 cands r c"
    by simp_all
  note s1 = copyCell_step [OF Cons.prems(1) okc]
  note ih = Cons.IH [OF s1(1) oks]
  have "stepRel {ro} st (fold (copyCell cands ro r) cs ?st1)"
    using stepRel_trans [OF s1(2), of "{ro}"] ih by simp
  moreover have "rowView (fold (copyCell cands ro r) cs ?st1) ro k
                  = (if k \<in> set (c # cs) then Some (srcVal st0 cands r k) else rowView st ro k)" for k
    using ih s1(3) [of k] by auto
  ultimately show ?case using ih by simp
qed

lemma getProp_stepRel:
  "stepRel A st st' \<Longrightarrow> b \<notin> A \<Longrightarrow> b < length st \<Longrightarrow> getProp st' b k = getProp st b k"
  by (simp add: stepRel_def getProp_def)

lemma rowView_stepRel:
  assumes "stepRel A st st'" and "b \<notin> A" and "b < length st"
    and "\<And>k x. getProp st b k = Some x \<Longrightarrow> x < length st"
  shows "rowView st' b k = rowView st b k"
proof -
  have g: "getProp st' b k = getProp st b k" by (rule getProp_stepRel [OF assms(1-3)])
  show ?thesis
  proof (cases "getProp st b k")
    case None
    then show ?thesis by (simp add: rowView_def g)
  next
    case (Some x)
    from assms(4) [OF Some] assms(1) have "getSet st' x = getSet st x" by (simp add: stepRel_def)
    then show ?thesis by (simp add: rowView_def g Some)
  qed
qed

lemma rowInv_stepRel:
  assumes "rowInv st0 b st" and "stepRel A st st'" and "b \<notin> A" and "ext st0 st'"
  shows "rowInv st0 b st'"
proof -
  from assms(1) have d: "getDict st b \<noteq> None" and lb: "length st0 \<le> b"
    and inb: "\<And>k x. getProp st b k = Some x \<Longrightarrow> x < length st"
    and lob: "\<And>k x. getProp st b k = Some x \<Longrightarrow> length st0 \<le> x"
    by (auto simp: rowInv_def)
  from d have bl: "b < length st" by (auto dest: getDict_Some_less)
  have "getDict st' b = getDict st b" using assms(2,3) bl by (simp add: stepRel_def)
  moreover have "x < length st'" if "getProp st' b k = Some x" for k x
  proof -
    have "getProp st b k = Some x" using that getProp_stepRel [OF assms(2,3) bl] by simp
    from inb [OF this] assms(2) show ?thesis by (simp add: stepRel_def)
  qed
  moreover have "length st0 \<le> x" if "getProp st' b k = Some x" for k x
  proof -
    have "getProp st b k = Some x" using that getProp_stepRel [OF assms(2,3) bl] by simp
    from lob [OF this] show ?thesis .
  qed
  ultimately show ?thesis using d lb assms(4) by (auto simp: rowInv_def)
qed

lemma rowInv_less: "rowInv st0 ro st \<Longrightarrow> ro < length st"
  by (auto simp: rowInv_def dest: getDict_Some_less)

lemma copyCandRow_step:
  assumes inv: "outerInv st0 cands copy R st" and new: "r \<notin> R"
    and ok: "\<forall>c < 6. cellAllocated st0 cands r c"
  shows "outerInv st0 cands copy (insert r R) (copyCandRow cands copy r st)"
proof -
  let ?ro = "length st"
  let ?st1 = "st @ [DictObj []]"
  let ?st2 = "setProp ?st1 copy r ?ro"
  let ?st' = "fold (copyCell cands ?ro r) [0 ..< 6] ?st2"
  have st': "copyCandRow cands copy r st = ?st'"
    by (simp add: copyCandRow_def alloc_def)
  from inv have e: "ext st0 st" and lc: "length st0 \<le> copy" and dc: "getDict st copy \<noteq> None"
    and none: "\<And>r'. r' \<notin> R \<Longrightarrow> getProp st copy r' = None"
    and rdone: "\<And>r'. r' \<in> R \<Longrightarrow> rowDone st0 cands copy st r'"
    and inj: "inj_on (getProp st copy) R"
    by (auto simp: outerInv_def)
  from dc obtain d where d: "getDict st copy = Some d" by auto
  have cl: "copy < length st" by (rule getDict_Some_less [OF d])
  have cro: "copy \<noteq> ?ro" using cl by simp
  have d1: "getDict ?st1 copy = Some d" using d cl by (simp add: getDict_append_old)
  have e2: "ext st0 ?st2" by (intro ext_setProp ext_append e lc)
  have ri2: "rowInv st0 ?ro ?st2"
  proof -
    have "getDict ?st2 ?ro = Some []"
      using cro by (simp add: getDict_setProp_other)
    then show ?thesis
      using e2 ext_length [OF e] by (simp add: rowInv_def getProp_def)
  qed
  have oks: "\<forall>c \<in> set [0 ..< 6]. cellAllocated st0 cands r c" using ok by simp
  note f = copyCells_fold [OF ri2 oks]
  from f have ri': "rowInv st0 ?ro ?st'" and sr2: "stepRel {?ro} ?st2 ?st'"
    and rv: "\<And>k. rowView ?st' ?ro k
               = (if k \<in> set [0 ..< 6] then Some (srcVal st0 cands r k) else rowView ?st2 ?ro k)"
    by blast+
  have e': "ext st0 ?st'" using ri' by (simp add: rowInv_def)
  have "stepRel ({} \<union> {copy}) st ?st2"
    by (rule stepRel_trans [OF stepRel_alloc stepRel_setProp])
  from stepRel_trans [OF this sr2] have sr: "stepRel {copy, ?ro} st ?st'"
    by (simp add: insert_commute)
  have gp: "getProp ?st' copy r' = (if r' = r then Some ?ro else getProp st copy r')" for r'
  proof -
    have "getProp ?st' copy r' = getProp ?st2 copy r'"
      using getProp_stepRel [OF sr2, of copy r'] cro cl by simp
    also have "\<dots> = (if r' = r then Some ?ro else getProp ?st1 copy r')"
      by (rule getProp_setProp_same [OF d1])
    also have "\<dots> = (if r' = r then Some ?ro else getProp st copy r')"
      using cl by (simp add: getProp_append_old)
    finally show ?thesis .
  qed
  have dc': "getDict ?st' copy \<noteq> None"
  proof -
    have "getDict ?st' copy = getDict ?st2 copy"
      using sr2 cro cl by (simp add: stepRel_def)
    then show ?thesis by (simp add: getDict_setProp_same [OF d1])
  qed
  have new_done: "rowDone st0 cands copy ?st' r"
    using ri' rv cro by (simp add: rowDone_def gp)
  have old_done: "rowDone st0 cands copy ?st' r'" if "r' \<in> R" for r'
  proof -
    from rdone [OF that] obtain ro' where g: "getProp st copy r' = Some ro'"
      and nc: "ro' \<noteq> copy" and ri: "rowInv st0 ro' st"
      and vw: "\<forall>c < 6. rowView st ro' c = Some (srcVal st0 cands r' c)"
      by (auto simp: rowDone_def split: option.splits)
    have lt: "ro' < length st" by (rule rowInv_less [OF ri])
    then have notin: "ro' \<notin> {copy, ?ro}" using nc by simp
    have inb: "\<And>k x. getProp st ro' k = Some x \<Longrightarrow> x < length st"
      using ri by (auto simp: rowInv_def)
    have "rowView ?st' ro' c = rowView st ro' c" for c
      by (rule rowView_stepRel [OF sr notin lt inb])
    moreover have "rowInv st0 ro' ?st'" by (rule rowInv_stepRel [OF ri sr notin e'])
    moreover have "r' \<noteq> r" using that new by auto
    ultimately show ?thesis using g nc vw by (simp add: rowDone_def gp)
  qed
  have inj': "inj_on (getProp ?st' copy) (insert r R)"
  proof (rule inj_onI)
    fix x y assume x: "x \<in> insert r R" and y: "y \<in> insert r R"
      and eq: "getProp ?st' copy x = getProp ?st' copy y"
    have fresh: "getProp st copy z \<noteq> Some ?ro" if "z \<in> R" for z
    proof -
      from rdone [OF that] obtain ro' where "getProp st copy z = Some ro'" "rowInv st0 ro' st"
        by (auto simp: rowDone_def split: option.splits)
      then show ?thesis using rowInv_less [of st0 ro' st] by auto
    qed
    show "x = y"
    proof (cases "x = r")
      case True
      show ?thesis
      proof (cases "y = r")
        case True
        with \<open>x = r\<close> show ?thesis by simp
      next
        case False
        with y have "y \<in> R" by simp
        from fresh [OF this] eq True False show ?thesis by (simp add: gp)
      qed
    next
      case False
      with x have xR: "x \<in> R" by simp
      show ?thesis
      proof (cases "y = r")
        case True
        from fresh [OF xR] eq True False show ?thesis by (simp add: gp)
      next
        case yr: False
        with y have "y \<in> R" by simp
        with xR eq False yr inj show ?thesis by (simp add: gp inj_on_def)
      qed
    qed
  qed
  have none': "getProp ?st' copy r' = None" if "r' \<notin> insert r R" for r'
    using that none [of r'] by (simp add: gp)
  show ?thesis
    unfolding st' outerInv_def
    using e' lc dc' none' new_done old_done inj' by auto
qed

lemma copyCandRows_fold:
  assumes "outerInv st0 cands copy R st" and "distinct rs" and "set rs \<inter> R = {}"
    and "\<forall>r \<in> set rs. \<forall>c < 6. cellAllocated st0 cands r c"
  shows "outerInv st0 cands copy (R \<union> set rs) (fold (copyCandRow cands copy) rs st)"
  using assms
proof (induction rs arbitrary: R st)
  case Nil
  then show ?case by simp
next
  case (Cons r rs)
  from Cons.prems have new: "r \<notin> R" and ok: "\<forall>c < 6. cellAllocated st0 cands r c" by auto
  note s1 = copyCandRow_step [OF Cons.prems(1) new ok]
  have "outerInv st0 cands copy (insert r R \<union> set rs)
          (fold (copyCandRow cands copy) rs (copyCandRow cands copy r st))"
    using Cons.prems by (intro Cons.IH s1) auto
  then show ?case by simp
qed

lemma candAllocated_cell:
  "candAllocated st cands \<Longrightarrow> r < 6 \<Longrightarrow> c < 6 \<Longrightarrow> cellAllocated st cands r c"
  by (simp add: candAllocated_def list_all_iff)

lemma deepCopyCandidates_inv:
  assumes "candAllocated st0 cands"
  shows "outerInv st0 cands (length st0) {..< 6} (snd (deepCopyCandidates st0 cands))"
    and "fst (deepCopyCandidates st0 cands) = length st0"
proof -
  let ?st = "st0 @ [DictObj []]"
  have init: "outerInv st0 cands (length st0) {} ?st"
    by (simp add: outerInv_def ext_append ext_refl getProp_def)
  have ok: "\<forall>r \<in> set [0 ..< 6]. \<forall>c < 6. cellAllocated st0 cands r c"
    using candAllocated_cell [OF assms] by simp
  have "outerInv st0 cands (length st0) ({} \<union> set [0 ..< 6])
          (fold (copyCandRow cands (length st0)) [0 ..< 6] ?st)"
    by (rule copyCandRows_fold [OF init _ _ ok]) simp_all
  moreover have "{} \<union> set [0 ..< 6] = {..< (6::nat)}" by auto
  ultimately show "outerInv st0 cands (length st0) {..< 6} (snd (deepCopyCandidates st0 cands))"
    by (simp add: deepCopyCandidates_def alloc_def)
  show "fst (deepCopyCandidates st0 cands) = length st0"
    by (simp add: deepCopyCandidates_def alloc_def)
qed

lemma viewCand_srcVal:
  "srcVal st cands r c = (case viewCand st cands r c of Some s \<Rightarrow> s | None \<Rightarrow> [])"
  by (simp add: viewCand_def srcVal_def split: option.splits)

text \<open>\<open>updateCandidatesAfterMove\<close> throws when the row of the move is off the board.\<close>

lemma updateCandidatesAfterMove_off_board:
  assumes "candAllocated st candidates" and "6 \<le> pm_row move"
  shows "updateCandidatesAfterMove st grid candidates move = Inl TypeError"
proof -
  note inv = deepCopyCandidates_inv [OF assms(1)]
  from inv(1) assms(2)
  have "getProp (snd (deepCopyCandidates st candidates)) (length st) (pm_row move) = None"
    by (simp add: outerInv_def)
  then show ?thesis
    using inv(2) by (simp add: updateCandidatesAfterMove_def split_beta Let_def)
qed

lemma updateCandidatesAfterMove_clear_result:
  assumes "candAllocated st candidates" and "pm_value move = None" and "pm_row move < 6"
  shows "\<exists>nc st'.
           updateCandidatesAfterMove st grid candidates move = Inr (nc, st')
           \<and> take (length st) st' = st
           \<and> length st \<le> nc
           \<and> (\<forall>r < 6. \<exists>ro. getProp st' nc r = Some ro \<and> length st \<le> ro)
           \<and> (\<forall>r < 6. \<forall>c < 6. \<exists>a. candRef st' nc r c = Some a \<and> length st \<le> a)
           \<and> viewCand st' nc (pm_row move) (pm_col move)
               = Some (calculateCellCandidates grid (pm_row move) (pm_col move))
           \<and> (\<forall>r < 6. \<forall>c < 6. (r, c) \<noteq> (pm_row move, pm_col move)
                  \<longrightarrow> viewCand st' nc r c
                        = Some (case viewCand st candidates r c of Some s \<Rightarrow> s | None \<Rightarrow> []))
           \<and> (\<forall>r < 6. \<forall>c < 6. viewCand st' candidates r c = viewCand st candidates r c)"
proof -
  let ?nc = "length st"
  let ?st1 = "snd (deepCopyCandidates st candidates)"
  let ?row = "pm_row move" and ?col = "pm_col move"
  let ?calc = "calculateCellCandidates grid ?row ?col"
  note inv = deepCopyCandidates_inv [OF assms(1)]
  from inv(1) have e1: "ext st ?st1" and dnc: "getDict ?st1 ?nc \<noteq> None"
    and rdone: "\<And>r. r < 6 \<Longrightarrow> rowDone st candidates ?nc ?st1 r"
    and inj: "inj_on (getProp ?st1 ?nc) {..< 6}"
    by (auto simp: outerInv_def)
  have ncl: "?nc < length ?st1" using dnc by (auto dest: getDict_Some_less)
  from rdone [OF assms(3)] obtain ro where ro: "getProp ?st1 ?nc ?row = Some ro"
    and ronc: "ro \<noteq> ?nc" and ri: "rowInv st ro ?st1"
    by (auto simp: rowDone_def split: option.splits)
  from ri obtain d where d: "getDict ?st1 ro = Some d" and lro: "length st \<le> ro"
    by (auto simp: rowInv_def)
  have rol: "ro < length ?st1" by (rule rowInv_less [OF ri])
  let ?s = "length ?st1"
  let ?st2 = "?st1 @ [SetObj ?calc]"
  let ?st' = "setProp ?st2 ro ?col ?s"
  have res: "updateCandidatesAfterMove st grid candidates move = Inr (?nc, ?st')"
    using inv(2) ro assms(2)
    by (simp add: updateCandidatesAfterMove_def alloc_def split_beta Let_def)
  have e': "ext st ?st'" by (intro ext_setProp ext_append e1 lro)
  then have frame: "take (length st) ?st' = st" by (simp add: ext_def)
  have d2: "getDict ?st2 ro = Some d" using d rol by (simp add: getDict_append_old)
  have "stepRel ({} \<union> {ro}) ?st1 ?st'"
    by (rule stepRel_trans [OF stepRel_alloc stepRel_setProp])
  then have sr: "stepRel {ro} ?st1 ?st'"
    by simp
  have gnc: "getProp ?st' ?nc r = getProp ?st1 ?nc r" for r
    using getProp_stepRel [OF sr, of ?nc r] ronc ncl by simp
  have newrows: "\<exists>ro'. getProp ?st' ?nc r = Some ro' \<and> length st \<le> ro'" if r: "r < 6" for r
  proof -
    from rdone [OF r] obtain ro' where "getProp ?st1 ?nc r = Some ro'" and "rowInv st ro' ?st1"
      by (auto simp: rowDone_def split: option.splits)
    then show ?thesis by (simp add: gnc rowInv_def)
  qed
  have cleared_ref: "candRef ?st' ?nc ?row ?col = Some ?s"
    by (simp add: candRef_def gnc ro getProp_setProp_same [OF d2])
  have cleared: "viewCand ?st' ?nc ?row ?col = Some ?calc"
    by (simp add: viewCand_def cleared_ref)
  have other_ref: "\<exists>x. candRef ?st' ?nc r c = Some x \<and> length st \<le> x \<and> x < length ?st1
                        \<and> getSet ?st1 x = srcVal st candidates r c"
    if r: "r < 6" and c: "c < 6" and ne: "(r, c) \<noteq> (?row, ?col)" for r c
  proof -
    from rdone [OF r] obtain ro' where g: "getProp ?st1 ?nc r = Some ro'"
      and ri': "rowInv st ro' ?st1"
      and vw: "rowView ?st1 ro' c = Some (srcVal st candidates r c)"
      using c by (auto simp: rowDone_def split: option.splits)
    from vw obtain x where x: "getProp ?st1 ro' c = Some x"
      and gx: "getSet ?st1 x = srcVal st candidates r c"
      by (auto simp: rowView_def)
    from ri' x have bx: "length st \<le> x" "x < length ?st1" by (auto simp: rowInv_def)
    have "getProp ?st' ro' c = getProp ?st1 ro' c"
    proof (cases "ro' = ro")
      case False
      then have "ro' \<notin> {ro}" by simp
      from getProp_stepRel [OF sr this rowInv_less [OF ri']] show ?thesis .
    next
      case True
      with g ro inj r assms(3) have "r = ?row" by (auto simp: inj_on_def)
      with ne have cc: "c \<noteq> ?col" by simp
      show ?thesis unfolding True
        using cc rol by (simp add: getProp_setProp_same [OF d2] getProp_append_old)
    qed
    then have "candRef ?st' ?nc r c = Some x" by (simp add: candRef_def gnc g x)
    with bx gx show ?thesis by simp
  qed
  have newsets: "\<exists>a. candRef ?st' ?nc r c = Some a \<and> length st \<le> a"
    if r: "r < 6" and c: "c < 6" for r c
  proof (cases "(r, c) = (?row, ?col)")
    case True
    with cleared_ref ext_length [OF e1] show ?thesis by simp
  next
    case False
    from other_ref [OF r c False] show ?thesis by blast
  qed
  have others: "viewCand ?st' ?nc r c
                  = Some (case viewCand st candidates r c of Some s \<Rightarrow> s | None \<Rightarrow> [])"
    if r: "r < 6" and c: "c < 6" and ne: "(r, c) \<noteq> (?row, ?col)" for r c
  proof -
    from other_ref [OF r c ne] obtain x where x: "candRef ?st' ?nc r c = Some x"
      and xl: "x < length ?st1" and gx: "getSet ?st1 x = srcVal st candidates r c"
      by blast
    have "getSet ?st' x = getSet ?st1 x" using xl by (simp add: getSet_append_old)
    then show ?thesis by (simp add: viewCand_def x gx viewCand_srcVal)
  qed
  have input: "viewCand ?st' candidates r c = viewCand st candidates r c"
    if r: "r < 6" and c: "c < 6" for r c
  proof -
    note ca = candAllocated_cell [OF assms(1) r c]
    have cr: "candRef ?st' candidates r c = candRef st candidates r c"
      by (rule candRef_stable [OF e' ca])
    show ?thesis
    proof (cases "candRef st candidates r c")
      case None
      then show ?thesis by (simp add: viewCand_def cr)
    next
      case (Some a)
      from ext_getSet [OF e' candRef_allocated [OF ca Some]] show ?thesis
        by (simp add: viewCand_def cr Some)
    qed
  qed
  have "updateCandidatesAfterMove st grid candidates move = Inr (?nc, ?st')
           \<and> take (length st) ?st' = st
           \<and> length st \<le> ?nc
           \<and> (\<forall>r < 6. \<exists>ro. getProp ?st' ?nc r = Some ro \<and> length st \<le> ro)
           \<and> (\<forall>r < 6. \<forall>c < 6. \<exists>a. candRef ?st' ?nc r c = Some a \<and> length st \<le> a)
           \<and> viewCand ?st' ?nc ?row ?col = Some ?calc
           \<and> (\<forall>r < 6. \<forall>c < 6. (r, c) \<noteq> (?row, ?col)
                  \<longrightarrow> viewCand ?st' ?nc r c
                        = Some (case viewCand st candidates r c of Some s \<Rightarrow> s | None \<Rightarrow> []))
           \<and> (\<forall>r < 6. \<forall>c < 6. viewCand ?st' candidates r c = viewCand st candidates r c)"
    using res frame newrows newsets cleared others input by (intro conjI allI impI) simp_all
  then show ?thesis by (intro exI)
qed

text \<open>
  C7, amended.  Let \<open>move\<close> be a clearing move (\<open>move.value = null\<close>) and let every
  reference of the input candidate map be an object of the store.

  If the row of the move is on the board (\<open>move.row < 6\<close>),
  \<open>updateCandidatesAfterMove\<close> returns a candidate map \<open>nc\<close> that is a new object: the
  map itself, its six row objects and the sets of its 36 cells are all allocated by the
  call (their addresses are not addresses of the store before the call).  The set at
  the cleared cell holds \<open>calculateCellCandidates grid move.row move.col\<close>; the set at
  every other cell of the board holds the content of the input's entry for that cell,
  or is empty where the input has no entry.  Every object that existed before the call
  is unchanged (the store after the call extends the store before it), so the input
  map reads as before.

  If the row of the move is off the board (\<open>move.row \<ge> 6\<close>), the call throws a
  TypeError.
\<close>

theorem updateCandidatesAfterMove_clear:
  assumes "candAllocated st candidates" and "pm_value move = None"
  shows "(pm_row move < 6 \<longrightarrow>
           (\<exists>nc st'.
              updateCandidatesAfterMove st grid candidates move = Inr (nc, st')
              \<and> take (length st) st' = st
              \<and> length st \<le> nc
              \<and> (\<forall>r < 6. \<exists>ro. getProp st' nc r = Some ro \<and> length st \<le> ro)
              \<and> (\<forall>r < 6. \<forall>c < 6. \<exists>a. candRef st' nc r c = Some a \<and> length st \<le> a)
              \<and> viewCand st' nc (pm_row move) (pm_col move)
                  = Some (calculateCellCandidates grid (pm_row move) (pm_col move))
              \<and> (\<forall>r < 6. \<forall>c < 6. (r, c) \<noteq> (pm_row move, pm_col move)
                     \<longrightarrow> viewCand st' nc r c
                           = Some (case viewCand st candidates r c of Some s \<Rightarrow> s | None \<Rightarrow> []))
              \<and> (\<forall>r < 6. \<forall>c < 6. viewCand st' candidates r c = viewCand st candidates r c)))
       \<and> (6 \<le> pm_row move \<longrightarrow>
            updateCandidatesAfterMove st grid candidates move = Inl TypeError)"
proof (intro conjI impI)
  assume "pm_row move < 6"
  from updateCandidatesAfterMove_clear_result [OF assms this]
  show "\<exists>nc st'.
              updateCandidatesAfterMove st grid candidates move = Inr (nc, st')
              \<and> take (length st) st' = st
              \<and> length st \<le> nc
              \<and> (\<forall>r < 6. \<exists>ro. getProp st' nc r = Some ro \<and> length st \<le> ro)
              \<and> (\<forall>r < 6. \<forall>c < 6. \<exists>a. candRef st' nc r c = Some a \<and> length st \<le> a)
              \<and> viewCand st' nc (pm_row move) (pm_col move)
                  = Some (calculateCellCandidates grid (pm_row move) (pm_col move))
              \<and> (\<forall>r < 6. \<forall>c < 6. (r, c) \<noteq> (pm_row move, pm_col move)
                     \<longrightarrow> viewCand st' nc r c
                           = Some (case viewCand st candidates r c of Some s \<Rightarrow> s | None \<Rightarrow> []))
              \<and> (\<forall>r < 6. \<forall>c < 6. viewCand st' candidates r c = viewCand st candidates r c)" .
next
  assume "6 \<le> pm_row move"
  from updateCandidatesAfterMove_off_board [OF assms(1) this]
  show "updateCandidatesAfterMove st grid candidates move = Inl TypeError" .
qed

theorem updateCandidatesAfterMove_clear_witness:
  "(\<exists>nc st'.
      updateCandidatesAfterMove partialCandStore oneEmptyCell 3 (clearMove 2 3) = Inr (nc, st')
      \<and> take (length partialCandStore) st' = partialCandStore
      \<and> length partialCandStore \<le> nc
      \<and> (\<exists>a. candRef st' nc 0 0 = Some a \<and> length partialCandStore \<le> a)
      \<and> viewCand st' nc 2 3 = Some [5]
      \<and> viewCand st' nc 0 0 = Some [1, 2]
      \<and> viewCand st' nc 1 1 = Some []
      \<and> viewCand st' 3 0 0 = Some [1, 2])
   \<and> updateCandidatesAfterMove partialCandStore oneEmptyCell 3 (clearMove 6 3) = Inl TypeError"
proof -
  have a: "candAllocated partialCandStore 3" by code_simp
  have b: "pm_value (clearMove 2 3) = None" "pm_row (clearMove 2 3) < 6" "pm_row (clearMove 2 3) = 2"
    "pm_col (clearMove 2 3) = 3" "pm_value (clearMove 6 3) = None" "6 \<le> pm_row (clearMove 6 3)"
    by (simp_all add: clearMove_def)
  have c: "calculateCellCandidates oneEmptyCell 2 3 = [5]" by code_simp
  have v: "viewCand partialCandStore 3 0 0 = Some [1, 2]" "viewCand partialCandStore 3 1 1 = None"
    by code_simp+
  from updateCandidatesAfterMove_clear [OF a b(1), of oneEmptyCell, THEN conjunct1, THEN mp, OF b(2)]
  obtain nc st' where r: "updateCandidatesAfterMove partialCandStore oneEmptyCell 3 (clearMove 2 3) = Inr (nc, st')"
    and f: "take (length partialCandStore) st' = partialCandStore"
    and n: "length partialCandStore \<le> nc"
    and s: "\<forall>r < 6. \<forall>c < 6. \<exists>a. candRef st' nc r c = Some a \<and> length partialCandStore \<le> a"
    and x: "viewCand st' nc 2 3 = Some [5]"
    and o: "\<forall>r < 6. \<forall>c < 6. (r, c) \<noteq> (2, 3)
                  \<longrightarrow> viewCand st' nc r c
                        = Some (case viewCand partialCandStore 3 r c of Some s \<Rightarrow> s | None \<Rightarrow> [])"
    and i: "\<forall>r < 6. \<forall>c < 6. viewCand st' 3 r c = viewCand partialCandStore 3 r c"
    unfolding b(3,4) c by blast
  from o have "viewCand st' nc 0 0 = Some [1, 2]" "viewCand st' nc 1 1 = Some []"
    using v by simp_all
  moreover from i have "viewCand st' 3 0 0 = Some [1, 2]" using v by simp
  moreover from s have "\<exists>a. candRef st' nc 0 0 = Some a \<and> length partialCandStore \<le> a" by simp
  moreover have "updateCandidatesAfterMove partialCandStore oneEmptyCell 3 (clearMove 6 3) = Inl TypeError"
    using updateCandidatesAfterMove_clear [OF a b(5), of oneEmptyCell] b(6) by blast
  ultimately show ?thesis using r f n x by blast
qed

text \<open>
  C7 as stated fails: a map without an entry for a cell gets an empty set for it, and a
  clearing move whose row is off the board makes the call throw.
\<close>

theorem updateCandidatesAfterMove_counterexample:
  "(case updateCandidatesAfterMove [DictObj []] oneEmptyCell 0 (clearMove 0 0) of
      Inl e \<Rightarrow> False
    | Inr (nc, st') \<Rightarrow> viewCand st' nc 1 1 = Some [] \<and> viewCand [DictObj []] 0 1 1 = None)
   \<and> updateCandidatesAfterMove [DictObj []] oneEmptyCell 0 (clearMove 6 0) = Inl TypeError"
proof -
  have a: "candAllocated [DictObj []] 0" by code_simp
  have b: "pm_value (clearMove 0 0) = None" "pm_row (clearMove 0 0) < 6" "pm_row (clearMove 0 0) = 0"
    "pm_col (clearMove 0 0) = 0" "6 \<le> pm_row (clearMove 6 0)"
    by (simp_all add: clearMove_def)
  have v: "viewCand [DictObj []] 0 1 1 = None" by code_simp
  from updateCandidatesAfterMove_clear_result [OF a b(1,2), of oneEmptyCell]
  obtain nc st' where r: "updateCandidatesAfterMove [DictObj []] oneEmptyCell 0 (clearMove 0 0) = Inr (nc, st')"
    and o: "\<forall>r < 6. \<forall>c < 6. (r, c) \<noteq> (0, 0)
                  \<longrightarrow> viewCand st' nc r c
                        = Some (case viewCand [DictObj []] 0 r c of Some s \<Rightarrow> s | None \<Rightarrow> [])"
    unfolding b(3,4) by blast
  from o have "viewCand st' nc 1 1 = Some []" using v by simp
  with r v updateCandidatesAfterMove_off_board [OF a b(5), of oneEmptyCell]
  show ?thesis by simp
qed


lemma cellAt_nth:
  "r < length g \<Longrightarrow> c < length (g ! r) \<Longrightarrow> cellAt g r c = g ! r ! c"
  by (simp add: cellAt_def rowAt_def elemAt_def)

lemma wellFormed_row: "wellFormed g \<Longrightarrow> r < 6 \<Longrightarrow> length (g ! r) = 6 \<and> Undefined \<notin> set (g ! r)"
  by (simp add: wellFormed_def)

lemma wellFormed_cellAt:
  "wellFormed g \<Longrightarrow> r < 6 \<Longrightarrow> c < 6 \<Longrightarrow> cellAt g r c = g ! r ! c \<and> cellAt g r c \<noteq> Undefined"
  using wellFormed_row [of g r] by (auto simp: cellAt_nth wellFormed_def) (metis nth_mem)

lemma row_as_cells:
  assumes "wellFormed g" and "r < 6"
  shows "g ! r = map (cellAt g r) [0 ..< 6]"
proof (rule nth_equalityI)
  show "length (g ! r) = length (map (cellAt g r) [0 ..< 6])"
    using wellFormed_row [OF assms] by simp
  fix i assume "i < length (g ! r)"
  then have "i < 6" using wellFormed_row [OF assms] by simp
  then show "g ! r ! i = map (cellAt g r) [0 ..< 6] ! i"
    using wellFormed_cellAt [OF assms, of i] by simp
qed

lemma col_as_cells:
  assumes "wellFormed g"
  shows "map (\<lambda>row. elemAt row c) g = map (\<lambda>r. cellAt g r c) [0 ..< 6]"
proof (rule nth_equalityI)
  show "length (map (\<lambda>row. elemAt row c) g) = length (map (\<lambda>r. cellAt g r c) [0 ..< 6])"
    using assms by (simp add: wellFormed_def)
  fix i assume "i < length (map (\<lambda>row. elemAt row c) g)"
  then have "i < 6" using assms by (simp add: wellFormed_def)
  then show "map (\<lambda>row. elemAt row c) g ! i = map (\<lambda>r. cellAt g r c) [0 ..< 6] ! i"
    using assms by (simp add: wellFormed_def cellAt_def rowAt_def)
qed

lemma nums_filter_Undefined: "nums (filter (\<lambda>x. x \<noteq> Undefined) xs) = nums xs"
  by (induction xs rule: nums.induct) auto

lemma nums_append: "nums (xs @ ys) = nums xs @ nums ys"
  by (induction xs rule: nums.induct) auto

lemma nums_concat: "nums (concat xss) = concat (map nums xss)"
  by (induction xss) (auto simp: nums_append)

lemma nums_getBox:
  assumes "wellFormed g" and "boxRow < 3"
  shows "nums (getBox g boxRow boxCol)
           = nums (map (\<lambda>(r, c). cellAt g r c) (boxPositions boxRow boxCol))"
proof -
  have rows: "rowAt g r = Some (g ! r)" if "r \<in> set [boxRow * 2 ..< boxRow * 2 + 2]" for r
    using that assms by (auto simp: rowAt_def wellFormed_def)
  have "getBox g boxRow boxCol
          = concat (map (\<lambda>row. case rowAt g row of
                            None \<Rightarrow> []
                          | Some currentRow \<Rightarrow>
                              filter (\<lambda>cell. cell \<noteq> Undefined)
                                (map (elemAt currentRow) [boxCol * 3 ..< boxCol * 3 + 3]))
                  [boxRow * 2 ..< boxRow * 2 + 2])"
    unfolding getBox_def Let_def BOX_WIDTH_def BOX_HEIGHT_def ..
  also have "\<dots> = concat (map (\<lambda>r. filter (\<lambda>cell. cell \<noteq> Undefined)
                                (map (elemAt (g ! r)) [boxCol * 3 ..< boxCol * 3 + 3]))
                  [boxRow * 2 ..< boxRow * 2 + 2])"
    by (rule arg_cong [where f = concat], rule map_cong [OF refl]) (simp add: rows del: upt_Suc)
  finally have "nums (getBox g boxRow boxCol)
          = concat (map (\<lambda>r. nums (map (elemAt (g ! r)) [boxCol * 3 ..< boxCol * 3 + 3]))
                        [boxRow * 2 ..< boxRow * 2 + 2])"
    by (simp add: nums_concat comp_def nums_filter_Undefined del: upt_Suc)
  also have "\<dots> = concat (map (\<lambda>r. nums (map (\<lambda>c. cellAt g r c) [boxCol * 3 ..< boxCol * 3 + 3]))
                        [boxRow * 2 ..< boxRow * 2 + 2])"
  proof (rule arg_cong [where f = concat], rule map_cong [OF refl])
    fix r assume "r \<in> set [boxRow * 2 ..< boxRow * 2 + 2]"
    then have "r < length g" using assms by (auto simp: wellFormed_def)
    then have "elemAt (g ! r) = cellAt g r" by (auto simp: cellAt_def rowAt_def)
    then show "nums (map (elemAt (g ! r)) [boxCol * 3 ..< boxCol * 3 + 3])
                 = nums (map (\<lambda>c. cellAt g r c) [boxCol * 3 ..< boxCol * 3 + 3])"
      by simp
  qed
  also have "\<dots> = nums (map (\<lambda>(r, c). cellAt g r c) (boxPositions boxRow boxCol))"
    unfolding boxPositions_def map_concat nums_concat map_map comp_def by simp
  finally show ?thesis .
qed

text \<open>Distinct numbers in a unit, in terms of the cells.\<close>

lemma num_in_nums: "v \<in> set (nums xs) \<longleftrightarrow> Num v \<in> set xs"
  by (induction xs rule: nums.induct) auto

lemma distinct_nums_map:
  assumes "distinct ps"
  shows "distinct (nums (map f ps))
           \<longleftrightarrow> (\<forall>p \<in> set ps. \<forall>q \<in> set ps. \<forall>v. f p = Num v \<and> f q = Num v \<longrightarrow> p = q)"
  using assms
proof (induction ps)
  case Nil
  then show ?case by simp
next
  case (Cons a ps)
  then have ih: "distinct (nums (map f ps))
           \<longleftrightarrow> (\<forall>p \<in> set ps. \<forall>q \<in> set ps. \<forall>v. f p = Num v \<and> f q = Num v \<longrightarrow> p = q)"
    and a: "a \<notin> set ps" by simp_all
  show ?case
  proof (cases "f a")
    case (Num v)
    have "distinct (nums (map f (a # ps))) \<longleftrightarrow> (\<forall>q \<in> set ps. f q \<noteq> Num v) \<and> distinct (nums (map f ps))"
      using Num by (auto simp: num_in_nums image_iff)
    then show ?thesis unfolding ih using Num a by auto
  next
    case Undefined
    then show ?thesis using ih by auto
  next
    case Null
    then show ?thesis using ih by auto
  qed
qed

lemma distinct_row_iff:
  assumes "wellFormed g" and "r < 6"
  shows "distinct (nums (g ! r)) \<longleftrightarrow> rowOK g r"
proof -
  have "distinct (nums (map (cellAt g r) [0 ..< 6])) \<longleftrightarrow> rowOK g r"
    unfolding rowOK_def by (subst distinct_nums_map) auto
  then show ?thesis using row_as_cells [OF assms] by simp
qed

lemma distinct_col_iff:
  assumes "wellFormed g"
  shows "distinct (nums (map (\<lambda>row. elemAt row c) g)) \<longleftrightarrow> colOK g c"
proof -
  have "distinct (nums (map (\<lambda>r. cellAt g r c) [0 ..< 6])) \<longleftrightarrow> colOK g c"
    unfolding colOK_def by (subst distinct_nums_map) auto
  then show ?thesis using col_as_cells [OF assms] by simp
qed

lemma distinct_boxPositions: "distinct (boxPositions br bc)"
  unfolding boxPositions_def
  by (rule distinct_concat) (auto simp: distinct_map inj_on_def)

lemma in_boxPositions:
  "(r, c) \<in> set (boxPositions br bc) \<longleftrightarrow> r div 2 = br \<and> c div 3 = bc"
proof -
  have "(r, c) \<in> set (boxPositions br bc)
          \<longleftrightarrow> (br * 2 \<le> r \<and> r < br * 2 + 2) \<and> (bc * 3 \<le> c \<and> c < bc * 3 + 3)"
    unfolding boxPositions_def by (force simp del: upt_Suc)
  also have "\<dots> \<longleftrightarrow> r div 2 = br \<and> c div 3 = bc"
    by presburger
  finally show ?thesis .
qed

lemma consistentD:
  "consistent g \<Longrightarrow> r < 6 \<Longrightarrow> c < 6 \<Longrightarrow> r' < 6 \<Longrightarrow> c' < 6 \<Longrightarrow> cellAt g r c = Num v
     \<Longrightarrow> cellAt g r' c' = Num v \<Longrightarrow> sameUnit r c r' c' \<Longrightarrow> r = r' \<and> c = c'"
  unfolding consistent_def by (elim allE [of _ r] allE [of _ c] allE [of _ r'] allE [of _ c'] allE [of _ v]) simp

lemma rowOKD:
  "rowOK g r \<Longrightarrow> c < 6 \<Longrightarrow> c' < 6 \<Longrightarrow> cellAt g r c = Num v \<Longrightarrow> cellAt g r c' = Num v \<Longrightarrow> c = c'"
  unfolding rowOK_def by (elim allE [of _ c] allE [of _ c'] allE [of _ v]) simp

lemma colOKD:
  "colOK g c \<Longrightarrow> r < 6 \<Longrightarrow> r' < 6 \<Longrightarrow> cellAt g r c = Num v \<Longrightarrow> cellAt g r' c = Num v \<Longrightarrow> r = r'"
  unfolding colOK_def by (elim allE [of _ r] allE [of _ r'] allE [of _ v]) simp

lemma boxOKD:
  "boxOK g br bc \<Longrightarrow> r div 2 = br \<Longrightarrow> c div 3 = bc \<Longrightarrow> r' div 2 = br \<Longrightarrow> c' div 3 = bc
     \<Longrightarrow> cellAt g r c = Num v \<Longrightarrow> cellAt g r' c' = Num v \<Longrightarrow> r = r' \<and> c = c'"
  unfolding boxOK_def
  by (elim allE [of _ r] allE [of _ c] allE [of _ r'] allE [of _ c'] allE [of _ v]) simp

lemma distinct_box_iff:
  assumes "wellFormed g" and "br < 3"
  shows "distinct (nums (getBox g br bc)) \<longleftrightarrow> boxOK g br bc"
proof -
  let ?f = "\<lambda>(r, c). cellAt g r c"
  let ?ps = "boxPositions br bc"
  have "(\<forall>p \<in> set ?ps. \<forall>q \<in> set ?ps. \<forall>v. ?f p = Num v \<and> ?f q = Num v \<longrightarrow> p = q) \<longleftrightarrow> boxOK g br bc"
  proof
    assume h: "\<forall>p \<in> set ?ps. \<forall>q \<in> set ?ps. \<forall>v. ?f p = Num v \<and> ?f q = Num v \<longrightarrow> p = q"
    show "boxOK g br bc"
      unfolding boxOK_def
    proof (intro allI impI)
      fix r c r' c' v
      assume a: "r div 2 = br \<and> c div 3 = bc \<and> r' div 2 = br \<and> c' div 3 = bc
          \<and> cellAt g r c = Num v \<and> cellAt g r' c' = Num v"
      then have "(r, c) \<in> set ?ps" "(r', c') \<in> set ?ps" by (simp_all add: in_boxPositions)
      with h have "?f (r, c) = Num v \<and> ?f (r', c') = Num v \<longrightarrow> (r, c) = (r', c')" by blast
      with a show "r = r' \<and> c = c'" by simp
    qed
  next
    assume b: "boxOK g br bc"
    show "\<forall>p \<in> set ?ps. \<forall>q \<in> set ?ps. \<forall>v. ?f p = Num v \<and> ?f q = Num v \<longrightarrow> p = q"
    proof (intro ballI allI impI)
      fix p q v assume p: "p \<in> set ?ps" and q: "q \<in> set ?ps" and e: "?f p = Num v \<and> ?f q = Num v"
      obtain r c where pp: "p = (r, c)" by (cases p)
      obtain r' c' where qq: "q = (r', c')" by (cases q)
      from p q have "r div 2 = br" "c div 3 = bc" "r' div 2 = br" "c' div 3 = bc"
        unfolding pp qq by (simp_all add: in_boxPositions)
      from boxOKD [OF b this, of v] e show "p = q" unfolding pp qq by simp
    qed
  qed
  moreover have "distinct (nums (map ?f ?ps))
      \<longleftrightarrow> (\<forall>p \<in> set ?ps. \<forall>q \<in> set ?ps. \<forall>v. ?f p = Num v \<and> ?f q = Num v \<longrightarrow> p = q)"
    by (rule distinct_nums_map [OF distinct_boxPositions])
  ultimately show ?thesis using nums_getBox [OF assms] by simp
qed

lemma cellAt_out_of_range: "\<not> (r < 6 \<and> c < 6) \<Longrightarrow> wellFormed g \<Longrightarrow> cellAt g r c = Undefined"
  by (auto simp: cellAt_def rowAt_def elemAt_def wellFormed_def split: option.splits)

lemma consistent_iff_units:
  assumes "wellFormed g"
  shows "consistent g \<longleftrightarrow>
           (\<forall>r < 6. rowOK g r) \<and> (\<forall>c < 6. colOK g c) \<and> (\<forall>br < 3. \<forall>bc < 2. boxOK g br bc)"
proof
  assume c: "consistent g"
  have "rowOK g r" if "r < 6" for r
    unfolding rowOK_def
  proof (intro allI impI)
    fix c1 c2 v assume "c1 < 6" "c2 < 6" and h: "cellAt g r c1 = Num v \<and> cellAt g r c2 = Num v"
    with consistentD [OF c that \<open>c1 < 6\<close> that \<open>c2 < 6\<close>, of v] show "c1 = c2"
      by (simp add: sameUnit_def)
  qed
  moreover have "colOK g c1" if "c1 < 6" for c1
    unfolding colOK_def
  proof (intro allI impI)
    fix r1 r2 v assume "r1 < 6" "r2 < 6" and h: "cellAt g r1 c1 = Num v \<and> cellAt g r2 c1 = Num v"
    with consistentD [OF c \<open>r1 < 6\<close> that \<open>r2 < 6\<close> that, of v] show "r1 = r2"
      by (simp add: sameUnit_def)
  qed
  moreover have "boxOK g br bc" if "br < 3" "bc < 2" for br bc
    unfolding boxOK_def
  proof (intro allI impI)
    fix r c1 r' c' v
    assume h: "r div 2 = br \<and> c1 div 3 = bc \<and> r' div 2 = br \<and> c' div 3 = bc
          \<and> cellAt g r c1 = Num v \<and> cellAt g r' c' = Num v"
    with that have "r < 6" "c1 < 6" "r' < 6" "c' < 6" by auto
    from consistentD [OF c this, of v] h show "r = r' \<and> c1 = c'"
      by (simp add: sameUnit_def)
  qed
  ultimately show "(\<forall>r < 6. rowOK g r) \<and> (\<forall>c < 6. colOK g c) \<and> (\<forall>br < 3. \<forall>bc < 2. boxOK g br bc)"
    by simp
next
  assume u: "(\<forall>r < 6. rowOK g r) \<and> (\<forall>c < 6. colOK g c) \<and> (\<forall>br < 3. \<forall>bc < 2. boxOK g br bc)"
  show "consistent g"
    unfolding consistent_def
  proof (intro allI impI)
    fix r c r' c' v
    assume r: "r < 6" and c: "c < 6" and r': "r' < 6" and c': "c' < 6"
      and h: "cellAt g r c = Num v \<and> cellAt g r' c' = Num v \<and> sameUnit r c r' c'"
    from h have v1: "cellAt g r c = Num v" and v2: "cellAt g r' c' = Num v" by simp_all
    have step: "r = r' \<or> c = c'"
    proof (cases "r = r' \<or> c = c'")
      case False
      with h have b: "r div 2 = r' div 2" "c div 3 = c' div 3" by (auto simp: sameUnit_def)
      have "r div 2 < 3" "c div 3 < 2" using r c by auto
      with u have "boxOK g (r div 2) (c div 3)" by simp
      from boxOKD [OF this refl refl b(1) [symmetric] b(2) [symmetric] v1 v2] show ?thesis by simp
    qed simp
    show "r = r' \<and> c = c'"
    proof (cases "r = r'")
      case True
      from u r have "rowOK g r" by simp
      from rowOKD [OF this c c' v1] v2 True show ?thesis by simp
    next
      case False
      with step have cc: "c = c'" by simp
      from u c have "colOK g c" by simp
      from colOKD [OF this r r' v1] v2 cc show ?thesis by simp
    qed
  qed
qed

lemma isValidGrid_iff:
  assumes "wellFormed g"
  shows "isValidGrid g \<longleftrightarrow> consistent g"
proof -
  have shape: "length g = 6" "\<forall>row \<in> set g. length row = 6"
    using assms by (simp_all add: wellFormed_def)
  have col: "isValidUnit (column g c) \<longleftrightarrow> colOK g c" for c
    using distinct_col_iff [OF assms] by (simp add: isValidUnit_def column_def nums_filter_Undefined)
  have row: "isValidUnit (g ! r) \<longleftrightarrow> rowOK g r" if "r < 6" for r
    using distinct_row_iff [OF assms that] by (simp add: isValidUnit_def)
  have box: "isValidUnit (getBox g br bc) \<longleftrightarrow> boxOK g br bc" if "br < 3" for br bc
    using distinct_box_iff [OF assms that] by (simp add: isValidUnit_def)
  have s6: "set [0 ..< 6] = {..< (6::nat)}" and s3: "set [0 ..< 3] = {..< (3::nat)}"
    and s2: "set [0 ..< 2] = {..< (2::nat)}" by auto
  have "isValidGrid g \<longleftrightarrow>
          (\<forall>r \<in> {..< 6}. isValidUnit (g ! r)) \<and> (\<forall>c \<in> {..< 6}. isValidUnit (column g c))
          \<and> (\<forall>br \<in> {..< 3}. \<forall>bc \<in> {..< 2}. isValidUnit (getBox g br bc))"
    unfolding isValidGrid_def GRID_SIZE_def BOX_HEIGHT_def BOX_WIDTH_def
    using shape by (simp add: s6 s3 s2 del: upt_Suc set_upt)
  also have "\<dots> \<longleftrightarrow> (\<forall>r < 6. rowOK g r) \<and> (\<forall>c < 6. colOK g c) \<and> (\<forall>br < 3. \<forall>bc < 2. boxOK g br bc)"
    using row box col by (auto simp: Ball_def)
  finally show ?thesis using consistent_iff_units [OF assms] by simp
qed

lemma setCell_update:
  assumes "wellFormed g" and "r < 6" and "c < 6"
  shows "setCell g r c x = g[r := (g ! r)[c := x]]"
proof -
  have "length (g ! r) = 6" using wellFormed_row [OF assms(1,2)] by simp
  with assms(3) show ?thesis by (simp add: setCell_def jsSet_def)
qed

lemma wellFormed_setCell:
  assumes "wellFormed g" and "r < 6" and "c < 6" and "x \<noteq> Undefined"
  shows "wellFormed (setCell g r c x)"
proof -
  have len: "length g = 6" using assms(1) by (simp add: wellFormed_def)
  have rowr: "length (g ! r) = 6" "Undefined \<notin> set (g ! r)"
    using wellFormed_row [OF assms(1,2)] by simp_all
  have new: "length ((g ! r)[c := x]) = 6 \<and> Undefined \<notin> set ((g ! r)[c := x])"
  proof -
    have "set ((g ! r)[c := x]) \<subseteq> insert x (set (g ! r))" by (rule set_update_subset_insert)
    with rowr(2) assms(4) have "Undefined \<notin> set ((g ! r)[c := x])" by blast
    with rowr(1) show ?thesis by simp
  qed
  have "length row = 6 \<and> Undefined \<notin> set row" if "row \<in> set (g[r := (g ! r)[c := x]])" for row
  proof -
    have "set (g[r := (g ! r)[c := x]]) \<subseteq> insert ((g ! r)[c := x]) (set g)"
      by (rule set_update_subset_insert)
    with that have "row = (g ! r)[c := x] \<or> row \<in> set g" by blast
    then show ?thesis
    proof
      assume "row = (g ! r)[c := x]"
      with new show ?thesis by simp
    next
      assume "row \<in> set g"
      with assms(1) show ?thesis by (simp add: wellFormed_def)
    qed
  qed
  then show ?thesis
    unfolding setCell_update [OF assms(1-3)] wellFormed_def using len by simp
qed

lemma cellAt_setCell:
  assumes "wellFormed g" and "r < 6" and "c < 6"
  shows "cellAt (setCell g r c x) r' c' = (if r' = r \<and> c' = c then x else cellAt g r' c')"
proof -
  have len: "length g = 6" "length (g ! r) = 6"
    using assms wellFormed_row [OF assms(1,2)] by (simp_all add: wellFormed_def)
  show ?thesis
    unfolding setCell_update [OF assms]
    using len assms(2,3)
    by (auto simp: cellAt_def rowAt_def elemAt_def nth_list_update)
qed

lemma setCell_restore:
  assumes "wellFormed g" and "r < 6" and "c < 6" and "cellAt g r c = y"
  shows "setCell (setCell g r c x) r c y = g"
proof -
  have len: "length g = 6" "length (g ! r) = 6"
    using assms wellFormed_row [OF assms(1,2)] by (simp_all add: wellFormed_def)
  have y: "g ! r ! c = y" using assms len by (simp add: cellAt_nth)
  have "setCell (setCell g r c x) r c y = g[r := (g ! r)[c := y]]"
    using len assms(2,3) by (simp add: setCell_def jsSet_def)
  also have "\<dots> = g"
  proof -
    have "(g ! r)[c := y] = g ! r" using y by (metis list_update_id)
    then show ?thesis by simp
  qed
  finally show ?thesis .
qed

lemma grid_ext:
  assumes "wellFormed g" and "wellFormed h"
    and "\<And>r c. r < 6 \<Longrightarrow> c < 6 \<Longrightarrow> cellAt g r c = cellAt h r c"
  shows "g = h"
proof (rule nth_equalityI)
  show "length g = length h" using assms(1,2) by (simp add: wellFormed_def)
  fix r assume "r < length g"
  then have r: "r < 6" using assms(1) by (simp add: wellFormed_def)
  show "g ! r = h ! r"
    unfolding row_as_cells [OF assms(1) r] row_as_cells [OF assms(2) r]
    using assms(3) [OF r] by simp
qed

lemma sameUnit_sym: "sameUnit r c r' c' \<Longrightarrow> sameUnit r' c' r c"
  by (auto simp: sameUnit_def)

lemma noPeerD:
  "noPeer g r c v \<Longrightarrow> r' < 6 \<Longrightarrow> c' < 6 \<Longrightarrow> sameUnit r c r' c' \<Longrightarrow> (r', c') \<noteq> (r, c)
     \<Longrightarrow> cellAt g r' c' \<noteq> Num v"
  unfolding noPeer_def by (elim allE [of _ r'] allE [of _ c']) simp

lemma consistent_setCell:
  assumes wf: "wellFormed g" and co: "consistent g" and r: "r < 6" and c: "c < 6"
    and np: "noPeer g r c v"
  shows "consistent (setCell g r c (Num v))"
  unfolding consistent_def
proof (intro allI impI)
  fix r1 c1 r2 c2 w
  assume b: "r1 < 6" "c1 < 6" "r2 < 6" "c2 < 6"
    and h: "cellAt (setCell g r c (Num v)) r1 c1 = Num w
            \<and> cellAt (setCell g r c (Num v)) r2 c2 = Num w \<and> sameUnit r1 c1 r2 c2"
  note ca = cellAt_setCell [OF wf r c]
  show "r1 = r2 \<and> c1 = c2"
  proof (cases "r1 = r \<and> c1 = c")
    case p: True
    show ?thesis
    proof (cases "r2 = r \<and> c2 = c")
      case True
      with p show ?thesis by simp
    next
      case False
      with h p have "w = v" "cellAt g r2 c2 = Num v" "sameUnit r c r2 c2"
        by (simp_all add: ca)
      with noPeerD [OF np b(3,4)] False show ?thesis by auto
    qed
  next
    case p: False
    show ?thesis
    proof (cases "r2 = r \<and> c2 = c")
      case True
      with h p have "w = v" "cellAt g r1 c1 = Num v" "sameUnit r1 c1 r c"
        by (simp_all add: ca)
      with noPeerD [OF np b(1,2) sameUnit_sym] p show ?thesis by auto
    next
      case False
      with h p have "cellAt g r1 c1 = Num w" "cellAt g r2 c2 = Num w" "sameUnit r1 c1 r2 c2"
        by (simp_all add: ca)
      from consistentD [OF co b this] show ?thesis .
    qed
  qed
qed

lemma distinct_filter_nums:
  "Undefined \<notin> set xs \<Longrightarrow> distinct (filter (\<lambda>v. v \<noteq> Null) xs) \<longleftrightarrow> distinct (nums xs)"
proof (induction xs)
  case Nil
  then show ?case by simp
next
  case (Cons x xs)
  then show ?case by (cases x) (simp_all add: num_in_nums)
qed

lemma isValidMove_iff_OK:
  assumes wf: "wellFormed g" and r: "r < 6" and c: "c < 6"
  shows "isValidMove g r c v \<longleftrightarrow>
           1 \<le> v \<and> v \<le> 6 \<and> rowOK (setCell g r c (Num v)) r \<and> colOK (setCell g r c (Num v)) c
           \<and> boxOK (setCell g r c (Num v)) (r div 2) (c div 3)"
proof -
  let ?g = "setCell g r c (Num v)"
  have wf': "wellFormed ?g" by (rule wellFormed_setCell [OF wf r c]) simp
  have ra: "rowAt g r = Some (g ! r)" using wf r by (simp add: rowAt_def wellFormed_def)
  have b3: "r div 2 < 3" using r by auto
  have len: "length g = 6" "length (g ! r) = 6"
    using wf wellFormed_row [OF wf r] by (simp_all add: wellFormed_def)
  have gr: "?g ! r = (g ! r)[c := Num v]"
    unfolding setCell_update [OF wf r c] using r len by simp
  have "Undefined \<notin> set (?g ! r)" using wellFormed_row [OF wf' r] by simp
  then have rv: "distinct (copiedRowValues (g ! r) c (Num v)) \<longleftrightarrow> distinct (nums (?g ! r))"
    unfolding gr using c len by (simp add: copiedRowValues_def distinct_filter_nums)
  have "isValidMove g r c v \<longleftrightarrow>
          \<not> (v < 1 \<or> v > 6) \<and> distinct (copiedRowValues (g ! r) c (Num v))
          \<and> distinct (nums (map (\<lambda>row. elemAt row c) ?g))
          \<and> distinct (nums (getBox ?g (r div 2) (c div 3)))"
    unfolding isValidMove_def Let_def BOX_HEIGHT_def BOX_WIDTH_def by (simp add: ra)
  then show ?thesis
    unfolding rv distinct_row_iff [OF wf' r] distinct_col_iff [OF wf'] distinct_box_iff [OF wf' b3]
    by auto
qed

lemma isValidMove_consistent:
  assumes wf: "wellFormed g" and co: "consistent g" and r: "r < 6" and c: "c < 6"
  shows "isValidMove g r c v \<longleftrightarrow> 1 \<le> v \<and> v \<le> 6 \<and> noPeer g r c v"
proof -
  let ?g = "setCell g r c (Num v)"
  have wf': "wellFormed ?g" by (rule wellFormed_setCell [OF wf r c]) simp
  note ca = cellAt_setCell [OF wf r c]
  have "noPeer g r c v"
    if ok: "rowOK ?g r" "colOK ?g c" "boxOK ?g (r div 2) (c div 3)"
    unfolding noPeer_def
  proof (intro allI impI)
    fix r' c' assume b: "r' < 6" "c' < 6" and h: "sameUnit r c r' c' \<and> (r', c') \<noteq> (r, c)"
    show "cellAt g r' c' \<noteq> Num v"
    proof
      assume e: "cellAt g r' c' = Num v"
      with h have e': "cellAt ?g r' c' = Num v" by (auto simp: ca)
      have e0: "cellAt ?g r c = Num v" by (simp add: ca)
      from h consider "r = r'" | "c = c'" | "r div 2 = r' div 2 \<and> c div 3 = c' div 3"
        unfolding sameUnit_def by blast
      then show False
      proof cases
        case 1
        from rowOKD [OF ok(1) c b(2) e0] e' 1 h show False by simp
      next
        case 2
        from colOKD [OF ok(2) r b(1) e0] e' 2 h show False by simp
      next
        case 3
        from boxOKD [OF ok(3) refl refl _ _ e0 e'] 3 h show False by simp
      qed
    qed
  qed
  moreover have "rowOK ?g r \<and> colOK ?g c \<and> boxOK ?g (r div 2) (c div 3)" if "noPeer g r c v"
  proof -
    have "consistent ?g" by (rule consistent_setCell [OF wf co r c that])
    then show ?thesis
      using consistent_iff_units [OF wf'] r c by auto
  qed
  ultimately show ?thesis
    unfolding isValidMove_iff_OK [OF wf r c] by blast
qed

lemma cellAt_defined: "wellFormed g \<Longrightarrow> r < 6 \<Longrightarrow> c < 6 \<Longrightarrow> cellAt g r c \<noteq> Undefined"
  using wellFormed_cellAt [of g r c] by blast

lemma isSolved_iff:
  assumes "wellFormed g"
  shows "isSolved g \<longleftrightarrow> noNull g \<and> consistent g"
proof -
  have rows: "rowAt g r = Some (g ! r)" if "r < 6" for r
    using assms that by (simp add: rowAt_def wellFormed_def)
  have el: "elemAt (g ! r) c = cellAt g r c" if "r < 6" for r c
    using rows [OF that] by (simp add: cellAt_def)
  have "(\<exists>row \<in> set [0 ..< 6].
            case rowAt g row of
              None \<Rightarrow> True
            | Some currentRow \<Rightarrow> (\<exists>col \<in> set [0 ..< 6]. elemAt currentRow col = Null))
        \<longleftrightarrow> \<not> noNull g"
    unfolding noNull_def using rows el by (auto simp del: upt_Suc) force+
  then show ?thesis
    unfolding isSolved_def GRID_SIZE_def using isValidGrid_iff [OF assms] by simp
qed

lemma isCompletion_cells:
  assumes "isCompletion g h" and "r < 6" and "c < 6"
  shows "\<exists>v. cellAt h r c = Num v"
proof -
  from assms have "case cellAt g r c of
            Num v \<Rightarrow> cellAt h r c = Num v
          | _ \<Rightarrow> (case cellAt h r c of Num v \<Rightarrow> 1 \<le> v \<and> v \<le> 6 | _ \<Rightarrow> False)"
    unfolding isCompletion_def by blast
  then show ?thesis by (cases "cellAt g r c"; cases "cellAt h r c") auto
qed

lemma isSolved_shape: "isSolved h \<Longrightarrow> length h = 6 \<and> (\<forall>row \<in> set h. length row = 6)"
  by (auto simp: isSolved_def isValidGrid_def split: if_splits)

lemma isCompletion_wellFormed:
  assumes "isCompletion g h"
  shows "wellFormed h"
proof -
  from assms have sh: "length h = 6" "\<forall>row \<in> set h. length row = 6"
    using isSolved_shape [of h] by (auto simp: isCompletion_def)
  have "Undefined \<notin> set row" if "row \<in> set h" for row
  proof
    assume "Undefined \<in> set row"
    then obtain c where c: "c < length row" "row ! c = Undefined" by (auto simp: in_set_conv_nth)
    from that obtain r where r: "r < length h" "h ! r = row" by (auto simp: in_set_conv_nth)
    from c r sh that have "r < 6" "c < 6" by auto
    moreover have "cellAt h r c = Undefined"
      using c r by (simp add: cellAt_nth)
    ultimately show False using isCompletion_cells [OF assms, of r c] by simp
  qed
  with sh show ?thesis by (simp add: wellFormed_def)
qed

lemma isCompletion_consistent: "isCompletion g h \<Longrightarrow> consistent h"
  using isSolved_iff [OF isCompletion_wellFormed] by (auto simp: isCompletion_def)

lemma isCompletion_cell:
  "isCompletion g h \<Longrightarrow> r < 6 \<Longrightarrow> c < 6 \<Longrightarrow>
     (case cellAt g r c of
        Num v \<Rightarrow> cellAt h r c = Num v
      | _ \<Rightarrow> (case cellAt h r c of Num v \<Rightarrow> 1 \<le> v \<and> v \<le> 6 | _ \<Rightarrow> False))"
  unfolding isCompletion_def by blast

lemma isCompletion_clue:
  "isCompletion g h \<Longrightarrow> r < 6 \<Longrightarrow> c < 6 \<Longrightarrow> cellAt g r c = Num v \<Longrightarrow> cellAt h r c = Num v"
  using isCompletion_cell [of g h r c] by simp

lemma isCompletion_empty:
  "isCompletion g h \<Longrightarrow> r < 6 \<Longrightarrow> c < 6 \<Longrightarrow> cellAt g r c = Null
     \<Longrightarrow> \<exists>v. 1 \<le> v \<and> v \<le> 6 \<and> cellAt h r c = Num v"
  using isCompletion_cell [of g h r c] by (cases "cellAt h r c") simp_all

lemma isCompletionI:
  assumes "wellFormed h" and "noNull h" and "consistent h"
    and "\<And>r c v. r < 6 \<Longrightarrow> c < 6 \<Longrightarrow> cellAt g r c = Num v \<Longrightarrow> cellAt h r c = Num v"
    and "\<And>r c. r < 6 \<Longrightarrow> c < 6 \<Longrightarrow> cellAt g r c \<noteq> Null \<Longrightarrow> \<exists>v. cellAt g r c = Num v"
    and "\<And>r c. r < 6 \<Longrightarrow> c < 6 \<Longrightarrow> cellAt g r c = Null
           \<Longrightarrow> \<exists>v. 1 \<le> v \<and> v \<le> 6 \<and> cellAt h r c = Num v"
  shows "isCompletion g h"
  unfolding isCompletion_def
proof (intro conjI allI impI)
  show "isSolved h" using isSolved_iff [OF assms(1)] assms(2,3) by simp
next
  fix r c :: nat assume rc: "r < 6" "c < 6"
  show "case cellAt g r c of
            Num v \<Rightarrow> cellAt h r c = Num v
          | _ \<Rightarrow> (case cellAt h r c of Num v \<Rightarrow> 1 \<le> v \<and> v \<le> 6 | _ \<Rightarrow> False)"
  proof (cases "cellAt g r c")
    case Undefined
    with assms(5) [OF rc] show ?thesis by simp
  next
    case Null
    with assms(6) [OF rc] show ?thesis by auto
  next
    case (Num v)
    with assms(4) [OF rc] show ?thesis by simp
  qed
qed

text \<open>A full consistent grid is its own and only completion.\<close>

lemma full_completion:
  assumes wf: "wellFormed g" and co: "consistent g" and full: "noNull g"
  shows "isCompletion g g" and "isCompletion g h \<Longrightarrow> h = g"
proof -
  have num: "\<exists>v. cellAt g r c = Num v" if "r < 6" "c < 6" for r c
  proof -
    have "cellAt g r c \<noteq> Undefined" by (rule cellAt_defined [OF wf that])
    moreover have "cellAt g r c \<noteq> Null" using full that by (simp add: noNull_def)
    ultimately show ?thesis by (cases "cellAt g r c") simp_all
  qed
  show "isCompletion g g"
    by (rule isCompletionI [OF wf full co]) (use num full in \<open>auto simp: noNull_def\<close>)
  assume h: "isCompletion g h"
  show "h = g"
  proof (rule grid_ext [OF isCompletion_wellFormed [OF h] wf])
    fix r c :: nat assume rc: "r < 6" "c < 6"
    from num [OF rc] obtain v where "cellAt g r c = Num v" ..
    with isCompletion_clue [OF h rc] show "cellAt h r c = cellAt g r c" by simp
  qed
qed

text \<open>Placing the value a completion holds is a valid move, and keeps the completion.\<close>

lemma completion_move_valid:
  assumes wf: "wellFormed g" and co: "consistent g" and rc: "r < 6" "c < 6"
    and h: "isCompletion g h" and v: "cellAt h r c = Num v" and e: "cellAt g r c = Null"
  shows "isValidMove g r c v"
proof -
  from isCompletion_empty [OF h rc e] v have range: "1 \<le> v" "v \<le> 6" by auto
  have "noPeer g r c v"
    unfolding noPeer_def
  proof (intro allI impI)
    fix r' c' assume b: "r' < 6" "c' < 6" and p: "sameUnit r c r' c' \<and> (r', c') \<noteq> (r, c)"
    show "cellAt g r' c' \<noteq> Num v"
    proof
      assume "cellAt g r' c' = Num v"
      then have "cellAt h r' c' = Num v" by (rule isCompletion_clue [OF h b])
      from consistentD [OF isCompletion_consistent [OF h] rc b v this] p show False by simp
    qed
  qed
  with range show ?thesis by (simp add: isValidMove_consistent [OF wf co rc])
qed

lemma completion_step:
  assumes wf: "wellFormed g" and rc: "r < 6" "c < 6" and e: "cellAt g r c = Null"
    and range: "1 \<le> v" "v \<le> 6"
  shows "isCompletion (setCell g r c (Num v)) h \<longleftrightarrow> isCompletion g h \<and> cellAt h r c = Num v"
proof
  let ?g = "setCell g r c (Num v)"
  note ca = cellAt_setCell [OF wf rc]
  assume h: "isCompletion ?g h"
  have v: "cellAt h r c = Num v"
    by (rule isCompletion_clue [OF h rc]) (simp add: ca)
  have "isCompletion g h"
  proof (rule isCompletionI [OF isCompletion_wellFormed [OF h] _ isCompletion_consistent [OF h]])
    show "noNull h" using h isSolved_iff [OF isCompletion_wellFormed [OF h]]
      by (simp add: isCompletion_def)
  next
    fix r' c' w assume b: "r' < 6" "c' < 6" and "cellAt g r' c' = Num w"
    then have "cellAt ?g r' c' = Num w" using e by (auto simp: ca)
    then show "cellAt h r' c' = Num w" by (rule isCompletion_clue [OF h b])
  next
    fix r' c' assume b: "r' < 6" "c' < 6" and "cellAt g r' c' \<noteq> Null"
    moreover have "cellAt g r' c' \<noteq> Undefined" by (rule cellAt_defined [OF wf b])
    ultimately show "\<exists>w. cellAt g r' c' = Num w"
      by (cases "cellAt g r' c'") simp_all
  next
    fix r' c' assume b: "r' < 6" "c' < 6" and n: "cellAt g r' c' = Null"
    show "\<exists>w. 1 \<le> w \<and> w \<le> 6 \<and> cellAt h r' c' = Num w"
    proof (cases "r' = r \<and> c' = c")
      case True
      with v range show ?thesis by auto
    next
      case False
      with n have "cellAt ?g r' c' = Null" by (auto simp: ca)
      from isCompletion_empty [OF h b this] show ?thesis .
    qed
  qed
  with v show "isCompletion g h \<and> cellAt h r c = Num v" by simp
next
  let ?g = "setCell g r c (Num v)"
  note ca = cellAt_setCell [OF wf rc]
  assume "isCompletion g h \<and> cellAt h r c = Num v"
  then have h: "isCompletion g h" and v: "cellAt h r c = Num v" by simp_all
  show "isCompletion ?g h"
  proof (rule isCompletionI [OF isCompletion_wellFormed [OF h] _ isCompletion_consistent [OF h]])
    show "noNull h" using h isSolved_iff [OF isCompletion_wellFormed [OF h]]
      by (simp add: isCompletion_def)
  next
    fix r' c' w assume b: "r' < 6" "c' < 6" and g': "cellAt ?g r' c' = Num w"
    show "cellAt h r' c' = Num w"
    proof (cases "r' = r \<and> c' = c")
      case True
      with g' v show ?thesis by (simp add: ca)
    next
      case False
      with g' have "cellAt g r' c' = Num w" by (auto simp: ca)
      then show ?thesis by (rule isCompletion_clue [OF h b])
    qed
  next
    fix r' c' assume b: "r' < 6" "c' < 6" and "cellAt ?g r' c' \<noteq> Null"
    moreover have "wellFormed ?g" by (rule wellFormed_setCell [OF wf rc]) simp
    then have "cellAt ?g r' c' \<noteq> Undefined" by (rule cellAt_defined [OF _ b])
    ultimately show "\<exists>w. cellAt ?g r' c' = Num w"
      by (cases "cellAt ?g r' c'") simp_all
  next
    fix r' c' assume b: "r' < 6" "c' < 6" and n: "cellAt ?g r' c' = Null"
    then have "cellAt g r' c' = Null" by (auto simp: ca split: if_splits)
    from isCompletion_empty [OF h b this] show "\<exists>w. 1 \<le> w \<and> w \<le> 6 \<and> cellAt h r' c' = Num w" .
  qed
qed

lemma solveNums_spec:
  assumes wf: "wellFormed g" and co: "consistent g" and rc: "r < 6" "c < 6"
    and e: "cellAt g r c = Null"
    and rec: "\<And>v sols. isValidMove g r c v \<Longrightarrow>
               \<exists>new. rec (setCell g r c (Num v), sols) = Some (setCell g r c (Num v), sols @ new)
                 \<and> (\<forall>h \<in> set new. isCompletion (setCell g r c (Num v)) h)
                 \<and> distinct new
                 \<and> (\<forall>h. isCompletion (setCell g r c (Num v)) h
                        \<longrightarrow> h \<in> set new \<or> maxS \<le> length (sols @ new))"
  shows "distinct ns \<Longrightarrow> \<forall>v \<in> set ns. 1 \<le> v \<and> v \<le> 6 \<Longrightarrow>
         \<exists>new. solveNums rec r c ns (g, sols) = Some (g, sols @ new)
           \<and> (\<forall>h \<in> set new. isCompletion g h \<and> (\<exists>v \<in> set ns. cellAt h r c = Num v))
           \<and> distinct new
           \<and> (\<forall>h. isCompletion g h \<and> (\<exists>v \<in> set ns. cellAt h r c = Num v)
                  \<longrightarrow> h \<in> set new \<or> maxS \<le> length (sols @ new))"
proof (induction ns arbitrary: sols)
  case Nil
  then show ?case by simp
next
  case (Cons v ns)
  from Cons.prems have dn: "distinct ns" and vn: "v \<notin> set ns"
    and rng: "\<forall>v \<in> set ns. 1 \<le> v \<and> v \<le> 6" and rv: "1 \<le> v" "v \<le> 6"
    by simp_all
  note step = completion_step [OF wf rc e rv]
  show ?case
  proof (cases "isValidMove g r c v")
    case True
    from rec [OF True, of sols] obtain new1 where
      r1: "rec (setCell g r c (Num v), sols) = Some (setCell g r c (Num v), sols @ new1)"
      and s1: "\<forall>h \<in> set new1. isCompletion (setCell g r c (Num v)) h"
      and d1: "distinct new1"
      and c1: "\<forall>h. isCompletion (setCell g r c (Num v)) h
                   \<longrightarrow> h \<in> set new1 \<or> maxS \<le> length (sols @ new1)"
      by blast
    from Cons.IH [OF dn rng, of "sols @ new1"] obtain new2 where
      r2: "solveNums rec r c ns (g, sols @ new1) = Some (g, (sols @ new1) @ new2)"
      and s2: "\<forall>h \<in> set new2. isCompletion g h \<and> (\<exists>w \<in> set ns. cellAt h r c = Num w)"
      and d2: "distinct new2"
      and c2: "\<forall>h. isCompletion g h \<and> (\<exists>w \<in> set ns. cellAt h r c = Num w)
                   \<longrightarrow> h \<in> set new2 \<or> maxS \<le> length ((sols @ new1) @ new2)"
      by blast
    have res: "solveNums rec r c (v # ns) (g, sols) = Some (g, sols @ (new1 @ new2))"
      using True r1 r2 setCell_restore [OF wf rc e, of "Num v"] by simp
    have in1: "isCompletion g h \<and> cellAt h r c = Num v" if "h \<in> set new1" for h
      using s1 that step by blast
    have disj: "set new1 \<inter> set new2 = {}"
    proof (rule ccontr)
      assume "set new1 \<inter> set new2 \<noteq> {}"
      then obtain h where h1: "h \<in> set new1" and h2: "h \<in> set new2" by blast
      from in1 [OF h1] have "cellAt h r c = Num v" by simp
      moreover from s2 h2 obtain w where "w \<in> set ns" "cellAt h r c = Num w" by blast
      ultimately show False using vn by simp
    qed
    have sound: "\<forall>h \<in> set (new1 @ new2). isCompletion g h \<and> (\<exists>w \<in> set (v # ns). cellAt h r c = Num w)"
      using in1 s2 by auto
    have dist: "distinct (new1 @ new2)" using d1 d2 disj by simp
    have compl: "h \<in> set (new1 @ new2) \<or> maxS \<le> length (sols @ (new1 @ new2))"
      if h: "isCompletion g h" and w: "w \<in> set (v # ns)" "cellAt h r c = Num w" for h w
    proof (cases "w = v")
      case True
      with h w step have "isCompletion (setCell g r c (Num v)) h" by simp
      with c1 have "h \<in> set new1 \<or> maxS \<le> length (sols @ new1)" by blast
      then show ?thesis by auto
    next
      case False
      with w have "w \<in> set ns" by simp
      with c2 h w(2) have "h \<in> set new2 \<or> maxS \<le> length ((sols @ new1) @ new2)" by blast
      then show ?thesis by auto
    qed
    from res sound dist compl show ?thesis by blast
  next
    case False
    from Cons.IH [OF dn rng, of sols] obtain new2 where
      r2: "solveNums rec r c ns (g, sols) = Some (g, sols @ new2)"
      and s2: "\<forall>h \<in> set new2. isCompletion g h \<and> (\<exists>w \<in> set ns. cellAt h r c = Num w)"
      and d2: "distinct new2"
      and c2: "\<forall>h. isCompletion g h \<and> (\<exists>w \<in> set ns. cellAt h r c = Num w)
                   \<longrightarrow> h \<in> set new2 \<or> maxS \<le> length (sols @ new2)"
      by blast
    have res: "solveNums rec r c (v # ns) (g, sols) = Some (g, sols @ new2)"
      using False r2 by simp
    have sound: "\<forall>h \<in> set new2. isCompletion g h \<and> (\<exists>w \<in> set (v # ns). cellAt h r c = Num w)"
      using s2 by auto
    have compl: "h \<in> set new2 \<or> maxS \<le> length (sols @ new2)"
      if h: "isCompletion g h" and w: "w \<in> set (v # ns)" "cellAt h r c = Num w" for h w
    proof (cases "w = v")
      case True
      with completion_move_valid [OF wf co rc h _ e] w False show ?thesis by simp
    next
      case False
      with w have "w \<in> set ns" by simp
      with c2 h w(2) show ?thesis by blast
    qed
    from res sound d2 compl show ?thesis by blast
  qed
qed

lemma filledBefore_next:
  assumes "filledBefore g row col" and "row < 6" and "col < 6" and "cellAt g row col \<noteq> Null"
  shows "filledBefore g (if col = 5 then row + 1 else row) (if col = 5 then 0 else col + 1)"
  unfolding filledBefore_def
proof (intro allI impI)
  fix r c assume b: "r < 6" "c < 6"
    and lt: "r * 6 + c < (if col = 5 then row + 1 else row) * 6 + (if col = 5 then 0 else col + 1)"
  then have "r * 6 + c < row * 6 + col \<or> r * 6 + c = row * 6 + col"
    by (auto split: if_splits)
  then show "cellAt g r c \<noteq> Null"
  proof
    assume "r * 6 + c < row * 6 + col"
    with assms(1) b show ?thesis unfolding filledBefore_def by blast
  next
    assume eq: "r * 6 + c = row * 6 + col"
    have "r = row"
    proof -
      have "(r * 6 + c) div 6 = r" "(row * 6 + col) div 6 = row" using b assms(2,3) by simp_all
      with eq show ?thesis by simp
    qed
    with eq have "c = col" by simp
    with \<open>r = row\<close> assms(4) show ?thesis by simp
  qed
qed

lemma filledBefore_setCell:
  assumes "wellFormed g" and "filledBefore g row col" and "row < 6" and "col < 6"
  shows "filledBefore (setCell g row col (Num v)) (if col = 5 then row + 1 else row)
           (if col = 5 then 0 else col + 1)"
proof -
  let ?g = "setCell g row col (Num v)"
  note ca = cellAt_setCell [OF assms(1,3,4)]
  have "filledBefore ?g row col"
    using assms(2) unfolding filledBefore_def by (auto simp: ca)
  moreover have "cellAt ?g row col \<noteq> Null" by (simp add: ca)
  ultimately show ?thesis using filledBefore_next [of ?g row col] assms(3,4) by simp
qed

lemma solve_spec:
  "wellFormed g \<Longrightarrow> consistent g \<Longrightarrow> posOK row col \<Longrightarrow> filledBefore g row col
     \<Longrightarrow> 36 < fuel + (row * 6 + col) \<Longrightarrow>
     \<exists>new. solve fuel maxS row col (g, sols) = Some (g, sols @ new)
       \<and> (\<forall>h \<in> set new. isCompletion g h)
       \<and> distinct new
       \<and> (\<forall>h. isCompletion g h \<longrightarrow> h \<in> set new \<or> maxS \<le> length (sols @ new))"
proof (induction fuel arbitrary: row col g sols)
  case 0
  then show ?case by (auto simp: posOK_def)
next
  case (Suc n)
  note wf = Suc.prems(1) and co = Suc.prems(2) and pos = Suc.prems(3)
    and fb = Suc.prems(4) and fuel = Suc.prems(5)
  show ?case
  proof (cases "maxS \<le> length sols")
    case True
    then have "solve (Suc n) maxS row col (g, sols) = Some (g, sols @ [])" by simp
    moreover have "\<forall>h. isCompletion g h \<longrightarrow> h \<in> set [] \<or> maxS \<le> length (sols @ [])"
      using True by simp
    ultimately show ?thesis by (intro exI [of _ "[]"]) simp
  next
    case notmax: False
    show ?thesis
    proof (cases "row = 6")
      case True
      with pos have col0: "col = 0" by (simp add: posOK_def)
      have full: "noNull g"
        using fb True col0 unfolding filledBefore_def noNull_def by auto
      have "solve (Suc n) maxS row col (g, sols) = Some (g, sols @ [g])"
        using notmax True by simp
      moreover have "\<forall>h \<in> set [g]. isCompletion g h"
        using full_completion(1) [OF wf co full] by simp
      moreover have "\<forall>h. isCompletion g h \<longrightarrow> h \<in> set [g] \<or> maxS \<le> length (sols @ [g])"
        using full_completion(2) [OF wf co full] by auto
      ultimately show ?thesis by (intro exI [of _ "[g]"]) simp
    next
      case False
      with pos have rc: "row < 6" "col < 6" by (auto simp: posOK_def)
      let ?nr = "if col = 5 then row + 1 else row"
      let ?nc = "if col = 5 then 0 else col + 1"
      have npos: "posOK ?nr ?nc" using rc by (auto simp: posOK_def)
      have nfuel: "36 < n + (?nr * 6 + ?nc)" using fuel rc by auto
      have ra: "rowAt g row = Some (g ! row)" using wf rc by (simp add: rowAt_def wellFormed_def)
      have el: "elemAt (g ! row) col = cellAt g row col" using ra by (simp add: cellAt_def)
      show ?thesis
      proof (cases "cellAt g row col = Null")
        case clue: False
        have unfold: "solve (Suc n) maxS row col (g, sols) = solve n maxS ?nr ?nc (g, sols)"
          using notmax False ra el clue by (simp add: Let_def)
        from Suc.IH [OF wf co npos filledBefore_next [OF fb rc clue] nfuel, of sols]
        show ?thesis unfolding unfold .
      next
        case empty: True
        have unfold: "solve (Suc n) maxS row col (g, sols)
                        = solveNums (solve n maxS ?nr ?nc) row col [1, 2, 3, 4, 5, 6] (g, sols)"
          using notmax False ra el empty by (simp add: Let_def)
        have rec: "\<exists>new. solve n maxS ?nr ?nc (setCell g row col (Num v), sols')
                             = Some (setCell g row col (Num v), sols' @ new)
                 \<and> (\<forall>h \<in> set new. isCompletion (setCell g row col (Num v)) h)
                 \<and> distinct new
                 \<and> (\<forall>h. isCompletion (setCell g row col (Num v)) h
                        \<longrightarrow> h \<in> set new \<or> maxS \<le> length (sols' @ new))"
          if vm: "isValidMove g row col v" for v sols'
        proof -
          have wf': "wellFormed (setCell g row col (Num v))"
            by (rule wellFormed_setCell [OF wf rc]) simp
          have co': "consistent (setCell g row col (Num v))"
            using vm consistent_setCell [OF wf co rc] isValidMove_consistent [OF wf co rc] by blast
          from Suc.IH [OF wf' co' npos filledBefore_setCell [OF wf fb rc] nfuel]
          show ?thesis .
        qed
        have "distinct [1, 2, 3, 4, 5, 6 :: int]" "\<forall>v \<in> set [1, 2, 3, 4, 5, 6 :: int]. 1 \<le> v \<and> v \<le> 6"
          by simp_all
        from solveNums_spec [OF wf co rc empty rec this]
        obtain new where
          r: "solveNums (solve n maxS ?nr ?nc) row col [1, 2, 3, 4, 5, 6] (g, sols) = Some (g, sols @ new)"
          and s: "\<forall>h \<in> set new. isCompletion g h"
          and d: "distinct new"
          and c: "\<forall>h. isCompletion g h \<and> (\<exists>v \<in> set [1, 2, 3, 4, 5, 6]. cellAt h row col = Num v)
                   \<longrightarrow> h \<in> set new \<or> maxS \<le> length (sols @ new)"
          by blast
        have "h \<in> set new \<or> maxS \<le> length (sols @ new)" if h: "isCompletion g h" for h
        proof -
          from isCompletion_empty [OF h rc empty] obtain v where
            "1 \<le> v" "v \<le> 6" "cellAt h row col = Num v" by blast
          moreover from this have "v \<in> set [1, 2, 3, 4, 5, 6]" by auto
          ultimately show ?thesis using c h by blast
        qed
        with r s d show ?thesis unfolding unfold by blast
      qed
    qed
  qed
qed

lemma toJSON_id:
  assumes "\<forall>row \<in> set h. Undefined \<notin> set row"
  shows "toJSON h = h"
proof -
  have "map (\<lambda>x. if x = Undefined then Null else x) row = row" if "row \<in> set h" for row
  proof (rule map_idI)
    fix x assume "x \<in> set row"
    with assms that have "x \<noteq> Undefined" by auto
    then show "(if x = Undefined then Null else x) = x" by simp
  qed
  then show ?thesis unfolding toJSON_def by (simp add: map_idI)
qed

lemma toJSON_eq_iff:
  assumes "\<forall>row \<in> set h. Undefined \<notin> set row \<and> Null \<notin> set row"
  shows "toJSON h = toJSON e \<longleftrightarrow> h = e"
proof
  assume eq: "toJSON h = toJSON e"
  have h: "toJSON h = h" using assms by (simp add: toJSON_id)
  have "Undefined \<notin> set row" if row: "row \<in> set e" for row
  proof
    assume "Undefined \<in> set row"
    then have "Null \<in> set (map (\<lambda>x. if x = Undefined then Null else x) row)" by force
    moreover have "map (\<lambda>x. if x = Undefined then Null else x) row \<in> set (toJSON e)"
      using row by (simp add: toJSON_def)
    ultimately show False using assms eq h by metis
  qed
  then have "toJSON e = e" by (simp add: toJSON_id)
  with eq h show "h = e" by simp
qed simp

lemma completion_rows:
  assumes "isCompletion g h"
  shows "\<forall>row \<in> set h. Undefined \<notin> set row \<and> Null \<notin> set row"
proof
  fix row assume row: "row \<in> set h"
  note wf = isCompletion_wellFormed [OF assms]
  from row obtain r where r: "r < length h" "h ! r = row" by (auto simp: in_set_conv_nth)
  with wf have r6: "r < 6" by (simp add: wellFormed_def)
  have "Null \<notin> set row"
  proof
    assume "Null \<in> set row"
    then obtain c where c: "c < length row" "row ! c = Null" by (auto simp: in_set_conv_nth)
    with wf row have c6: "c < 6" by (simp add: wellFormed_def)
    have "cellAt h r c = Null" using r c by (simp add: cellAt_nth)
    with isCompletion_cells [OF assms r6 c6] show False by simp
  qed
  with wf row show "Undefined \<notin> set row \<and> Null \<notin> set row" by (simp add: wellFormed_def)
qed

lemma findAllSolutions_spec:
  assumes wf: "wellFormed puzzle" and valid: "isValidGrid puzzle" and fuel: "37 \<le> fuel"
  shows "\<exists>sols. findAllSolutions fuel puzzle maxS = Some sols
           \<and> (\<forall>h \<in> set sols. isCompletion puzzle h)
           \<and> distinct sols
           \<and> (\<forall>h. isCompletion puzzle h \<longrightarrow> h \<in> set sols \<or> maxS \<le> length sols)"
proof -
  have co: "consistent puzzle" using valid isValidGrid_iff [OF wf] by simp
  have "posOK 0 0" "filledBefore puzzle 0 0" "36 < fuel + (0 * 6 + 0)"
    using fuel by (simp_all add: posOK_def filledBefore_def)
  from solve_spec [OF wf co this, of maxS "[]"] show ?thesis
    by (auto simp: findAllSolutions_def)
qed

lemma hasUniqueSolution_result:
  assumes wf: "wellFormed puzzle" and valid: "isValidGrid puzzle" and fuel: "37 \<le> fuel"
  shows "hasUniqueSolution fuel puzzle expectedSolution
           = Some (uniqueCompletion puzzle expectedSolution)"
proof -
  from findAllSolutions_spec [OF assms, of 2] obtain sols where
    f: "findAllSolutions fuel puzzle 2 = Some sols"
    and s: "\<forall>h \<in> set sols. isCompletion puzzle h"
    and d: "distinct sols"
    and c: "\<forall>h. isCompletion puzzle h \<longrightarrow> h \<in> set sols \<or> 2 \<le> length sols"
    by blast
  have res: "hasUniqueSolution fuel puzzle expectedSolution
               = Some (length sols = 1 \<and> toJSON (sols ! 0) = toJSON expectedSolution)"
    by (auto simp: hasUniqueSolution_def f)
  have "(length sols = 1 \<and> toJSON (sols ! 0) = toJSON expectedSolution)
          \<longleftrightarrow> uniqueCompletion puzzle expectedSolution"
  proof
    assume a: "length sols = 1 \<and> toJSON (sols ! 0) = toJSON expectedSolution"
    then obtain h0 where h0: "sols = [h0]" by (cases sols) auto
    with s have c0: "isCompletion puzzle h0" by simp
    from a h0 have "toJSON h0 = toJSON expectedSolution" by simp
    with toJSON_eq_iff [OF completion_rows [OF c0], of expectedSolution]
    have e0: "h0 = expectedSolution" by blast
    have "\<forall>h. isCompletion puzzle h \<longrightarrow> h = expectedSolution"
    proof (intro allI impI)
      fix h assume "isCompletion puzzle h"
      with c have "h \<in> set sols \<or> 2 \<le> length sols" by blast
      with h0 e0 show "h = expectedSolution" by simp
    qed
    moreover from c0 e0 have "isCompletion puzzle expectedSolution" by blast
    ultimately show "uniqueCompletion puzzle expectedSolution"
      unfolding uniqueCompletion_def by (rule conjI [rotated])
  next
    assume u: "uniqueCompletion puzzle expectedSolution"
    then have ce: "isCompletion puzzle expectedSolution"
      and only: "\<And>h. isCompletion puzzle h \<Longrightarrow> h = expectedSolution"
      unfolding uniqueCompletion_def by blast+
    have all: "\<forall>h \<in> set sols. h = expectedSolution" using s only by blast
    have le1: "length sols \<le> 1"
    proof (rule ccontr)
      assume "\<not> length sols \<le> 1"
      then obtain a b rest where "sols = a # b # rest"
        by (cases sols; cases "tl sols") auto
      with all d show False by auto
    qed
    with c ce have "expectedSolution \<in> set sols" by auto
    with le1 have "sols = [expectedSolution]" by (cases sols) auto
    then show "length sols = 1 \<and> toJSON (sols ! 0) = toJSON expectedSolution" by simp
  qed
  with res show ?thesis by simp
qed

lemma allOnes_no_completion: "\<not> isCompletion allOnes h"
proof
  assume h: "isCompletion allOnes h"
  have wf: "wellFormed allOnes" by (simp add: wellFormed_def allOnes_def)
  have full: "cellAt allOnes r c = Num 1" if "r < 6" "c < 6" for r c
    using that by (simp add: cellAt_def rowAt_def elemAt_def allOnes_def)
  have "cellAt h 0 0 = Num 1" "cellAt h 0 1 = Num 1"
    using isCompletion_clue [OF h _ _ full] by simp_all
  from consistentD [OF isCompletion_consistent [OF h] _ _ _ _ this] show False
    by (simp add: sameUnit_def)
qed

text \<open>
  C3, amended: for every 6 by 6 grid \<open>puzzle\<close> that passes \<open>isValidGrid\<close> (no clue
  occurs twice in a row, a column or a box) and every grid \<open>expectedSolution\<close>,
  \<open>hasUniqueSolution\<close> returns, and it returns true if and only if the puzzle has
  exactly one completion and that completion is \<open>expectedSolution\<close>.  A call stack of
  37 frames is enough.
\<close>

theorem hasUniqueSolution_iff_unique:
  assumes "wellFormed puzzle" and "isValidGrid puzzle" and "37 \<le> fuel"
  shows "hasUniqueSolution fuel puzzle expectedSolution
           = Some (uniqueCompletion puzzle expectedSolution)"
  by (rule hasUniqueSolution_result [OF assms])

theorem hasUniqueSolution_iff_unique_witness:
  "hasUniqueSolution 37 oneEmptyCell exampleSolution = Some True
   \<and> uniqueCompletion oneEmptyCell exampleSolution"
proof -
  have a: "wellFormed oneEmptyCell" by code_simp
  have b: "isValidGrid oneEmptyCell" by code_simp
  have c: "hasUniqueSolution 37 oneEmptyCell exampleSolution = Some True" by code_simp
  from hasUniqueSolution_iff_unique [OF a b, of 37 exampleSolution] c show ?thesis by simp
qed

text \<open>
  C3 as stated fails on a grid whose clues already clash: the search never looks at
  filled cells, so the grid of ones is reported as having the unique solution it was
  given, although no valid grid completes it.
\<close>

theorem hasUniqueSolution_counterexample:
  "wellFormed allOnes
   \<and> hasUniqueSolution 37 allOnes allOnes = Some True
   \<and> \<not> uniqueCompletion allOnes allOnes"
proof -
  have a: "wellFormed allOnes" by code_simp
  have c: "hasUniqueSolution 37 allOnes allOnes = Some True" by code_simp
  from a c allOnes_no_completion [of allOnes] show ?thesis
    by (simp add: uniqueCompletion_def)
qed

subsection \<open>The shuffle permutes\<close>

lemma shuffleFrom_props:
  "set (fst (shuffleFrom rnd k st)) = set (fst st)
   \<and> distinct (fst (shuffleFrom rnd k st)) = distinct (fst st)
   \<and> length (fst (shuffleFrom rnd k st)) = length (fst st)"
proof (induction k arbitrary: st)
  case 0
  show ?case by simp
next
  case (Suc k)
  let ?j = "\<lfloor>rnd (snd st) * real (Suc k + 1)\<rfloor>"
  let ?xs = "fst st"
  show ?case
  proof (cases "Suc k < length ?xs \<and> 0 \<le> ?j \<and> nat ?j < length ?xs")
    case True
    then have i: "Suc k < length ?xs" and j: "nat ?j < length ?xs" by simp_all
    let ?ys = "?xs[Suc k := ?xs ! nat ?j, nat ?j := ?xs ! Suc k]"
    have "shuffleFrom rnd (Suc k) st = shuffleFrom rnd k (?ys, snd st + 1)"
      using True by (simp add: Let_def)
    moreover have "set ?ys = set ?xs" by (rule set_swap [OF i j])
    moreover have "distinct ?ys = distinct ?xs" by (rule distinct_swap [OF i j])
    ultimately show ?thesis using Suc.IH [of "(?ys, snd st + 1)"] by simp
  next
    case False
    then have "shuffleFrom rnd (Suc k) st = shuffleFrom rnd k (?xs, snd st + 1)"
      by (auto simp: Let_def)
    then show ?thesis using Suc.IH [of "(?xs, snd st + 1)"] by simp
  qed
qed

lemma shuffleArray_props:
  "set (fst (shuffleArray rnd pos xs)) = set xs"
  "distinct (fst (shuffleArray rnd pos xs)) = distinct xs"
  "length (fst (shuffleArray rnd pos xs)) = length xs"
  using shuffleFrom_props [of rnd "length xs - 1" "(xs, pos)"] by (simp_all add: shuffleArray_def)

subsection \<open>Positions\<close>

lemma set_allPositions: "set allPositions = {(r, c). r < 6 \<and> c < 6}"
  by (auto simp: allPositions_def)

lemma firstEmpty_None: "firstEmpty g = None \<Longrightarrow> noNull g"
  unfolding firstEmpty_def noNull_def find_None_iff set_allPositions by blast

lemma firstEmpty_Some:
  assumes "firstEmpty g = Some (r, c)"
  shows "r < 6" and "c < 6" and "cellAt g r c = Null"
proof -
  from assms obtain i where "i < length allPositions" "allPositions ! i = (r, c)"
    "cellAt g r c = Null"
    unfolding firstEmpty_def find_Some_iff by auto
  then have "(r, c) \<in> set allPositions" by (metis nth_mem)
  then show "r < 6" "c < 6" by (simp_all add: set_allPositions)
  show "cellAt g r c = Null" by fact
qed

lemma finite_emptyCells: "finite (emptyCells g)"
proof (rule finite_subset)
  show "emptyCells g \<subseteq> {..< 6} \<times> {..< 6}" by (auto simp: emptyCells_def)
qed simp

lemma emptyCells_setCell:
  assumes "wellFormed g" and "r < 6" and "c < 6" and "cellAt g r c = Null"
  shows "card (emptyCells (setCell g r c (Num v))) < card (emptyCells g)"
proof (rule psubset_card_mono [OF finite_emptyCells])
  have "(r, c) \<in> emptyCells g" using assms by (simp add: emptyCells_def)
  moreover have "(r, c) \<notin> emptyCells (setCell g r c (Num v))"
    by (simp add: emptyCells_def cellAt_setCell [OF assms(1-3)])
  moreover have "emptyCells (setCell g r c (Num v)) \<subseteq> emptyCells g"
    by (auto simp: emptyCells_def cellAt_setCell [OF assms(1-3)] split: if_splits)
  ultimately show "emptyCells (setCell g r c (Num v)) \<subset> emptyCells g" by blast
qed

subsection \<open>The backtracking search is sound and complete\<close>

lemma fillNums_spec:
  assumes wf: "wellFormed g" and co: "consistent g" and rc: "r < 6" "c < 6"
    and e: "cellAt g r c = Null"
    and rec: "\<And>v pos. isValidMove g r c v \<Longrightarrow>
               \<exists>b g' pos'. rec (setCell g r c (Num v), pos) = Some (b, g', pos')
                 \<and> (b \<longrightarrow> isCompletion (setCell g r c (Num v)) g')
                 \<and> (\<not> b \<longrightarrow> g' = setCell g r c (Num v)
                            \<and> (\<forall>h. \<not> isCompletion (setCell g r c (Num v)) h))"
  shows "\<forall>v \<in> set ns. 1 \<le> v \<and> v \<le> 6 \<Longrightarrow>
         \<exists>b g' pos'. fillNums rec r c ns (g, pos) = Some (b, g', pos')
           \<and> (b \<longrightarrow> isCompletion g g')
           \<and> (\<not> b \<longrightarrow> g' = g \<and> (\<forall>h. isCompletion g h \<longrightarrow> (\<forall>v \<in> set ns. cellAt h r c \<noteq> Num v)))"
proof (induction ns arbitrary: pos)
  case Nil
  show ?case by (intro exI [of _ False] exI [of _ g] exI [of _ pos]) simp
next
  case (Cons v ns)
  from Cons.prems have rng: "\<forall>v \<in> set ns. 1 \<le> v \<and> v \<le> 6" and rv: "1 \<le> v" "v \<le> 6"
    by simp_all
  note step = completion_step [OF wf rc e rv]
  show ?case
  proof (cases "isValidMove g r c v")
    case True
    from rec [OF True, of pos] obtain b1 g1 pos1 where
      r1: "rec (setCell g r c (Num v), pos) = Some (b1, g1, pos1)"
      and t1: "b1 \<longrightarrow> isCompletion (setCell g r c (Num v)) g1"
      and f1: "\<not> b1 \<longrightarrow> g1 = setCell g r c (Num v)
                        \<and> (\<forall>h. \<not> isCompletion (setCell g r c (Num v)) h)"
      by blast
    show ?thesis
    proof (cases b1)
      case True
      with t1 step have cg: "isCompletion g g1" by blast
      have res: "fillNums rec r c (v # ns) (g, pos) = Some (True, g1, pos1)"
        using \<open>isValidMove g r c v\<close> r1 True by simp
      from res cg show ?thesis by blast
    next
      case False
      with f1 have g1: "g1 = setCell g r c (Num v)"
        and no: "\<forall>h. \<not> isCompletion (setCell g r c (Num v)) h" by simp_all
      have restored: "setCell g1 r c Null = g"
        unfolding g1 by (rule setCell_restore [OF wf rc e])
      from Cons.IH [OF rng, of pos1] obtain b2 g2 pos2 where
        r2: "fillNums rec r c ns (g, pos1) = Some (b2, g2, pos2)"
        and t2: "b2 \<longrightarrow> isCompletion g g2"
        and f2: "\<not> b2 \<longrightarrow> g2 = g \<and> (\<forall>h. isCompletion g h \<longrightarrow> (\<forall>w \<in> set ns. cellAt h r c \<noteq> Num w))"
        by blast
      have res: "fillNums rec r c (v # ns) (g, pos) = Some (b2, g2, pos2)"
        using \<open>isValidMove g r c v\<close> r1 False restored r2 by simp
      have "cellAt h r c \<noteq> Num w" if "\<not> b2" "isCompletion g h" "w \<in> set (v # ns)" for h w
      proof (cases "w = v")
        case True
        from no step that(2) show ?thesis unfolding True by blast
      next
        case False
        with that f2 show ?thesis by auto
      qed
      with res t2 f2 show ?thesis by blast
    qed
  next
    case False
    from Cons.IH [OF rng, of pos] obtain b2 g2 pos2 where
      r2: "fillNums rec r c ns (g, pos) = Some (b2, g2, pos2)"
      and t2: "b2 \<longrightarrow> isCompletion g g2"
      and f2: "\<not> b2 \<longrightarrow> g2 = g \<and> (\<forall>h. isCompletion g h \<longrightarrow> (\<forall>w \<in> set ns. cellAt h r c \<noteq> Num w))"
      by blast
    have res: "fillNums rec r c (v # ns) (g, pos) = Some (b2, g2, pos2)"
      using False r2 by simp
    have "cellAt h r c \<noteq> Num w" if "\<not> b2" "isCompletion g h" "w \<in> set (v # ns)" for h w
    proof (cases "w = v")
      case True
      show ?thesis
      proof
        assume "cellAt h r c = Num w"
        with completion_move_valid [OF wf co rc that(2) _ e] True False show False by simp
      qed
    next
      case False
      with that f2 show ?thesis by auto
    qed
    with res t2 f2 show ?thesis by blast
  qed
qed

lemma fillGrid_spec:
  "wellFormed g \<Longrightarrow> consistent g \<Longrightarrow> card (emptyCells g) < fuel \<Longrightarrow>
     \<exists>b g' pos'. fillGrid fuel rnd (g, pos) = Some (b, g', pos')
       \<and> (b \<longrightarrow> isCompletion g g')
       \<and> (\<not> b \<longrightarrow> g' = g \<and> (\<forall>h. \<not> isCompletion g h))"
proof (induction fuel arbitrary: g pos)
  case 0
  then show ?case by simp
next
  case (Suc fuel)
  note wf = Suc.prems(1) and co = Suc.prems(2)
  show ?case
  proof (cases "firstEmpty g")
    case None
    from full_completion(1) [OF wf co firstEmpty_None [OF None]]
    show ?thesis using None by (intro exI [of _ True] exI [of _ g] exI [of _ pos]) simp
  next
    case (Some p)
    obtain r c where p: "p = (r, c)" by (cases p)
    note fe = firstEmpty_Some [OF Some [unfolded p]]
    obtain numbers pos1 where sh: "shuffleArray rnd pos [1, 2, 3, 4, 5, 6 :: int] = (numbers, pos1)"
      by (cases "shuffleArray rnd pos [1, 2, 3, 4, 5, 6 :: int]")
    have sn: "set numbers = {1, 2, 3, 4, 5, 6}"
      using shuffleArray_props(1) [of rnd pos "[1, 2, 3, 4, 5, 6 :: int]"] sh by simp
    then have rng: "\<forall>v \<in> set numbers. 1 \<le> v \<and> v \<le> 6" by auto
    have rec: "\<exists>b g' pos'. fillGrid fuel rnd (setCell g r c (Num v), pos) = Some (b, g', pos')
                 \<and> (b \<longrightarrow> isCompletion (setCell g r c (Num v)) g')
                 \<and> (\<not> b \<longrightarrow> g' = setCell g r c (Num v)
                            \<and> (\<forall>h. \<not> isCompletion (setCell g r c (Num v)) h))"
      if vm: "isValidMove g r c v" for v pos
    proof (rule Suc.IH)
      show "wellFormed (setCell g r c (Num v))"
        by (rule wellFormed_setCell [OF wf fe(1,2)]) simp
      from vm have "noPeer g r c v" by (simp add: isValidMove_consistent [OF wf co fe(1,2)])
      then show "consistent (setCell g r c (Num v))"
        by (rule consistent_setCell [OF wf co fe(1,2)])
      from emptyCells_setCell [OF wf fe, of v] Suc.prems(3)
      show "card (emptyCells (setCell g r c (Num v))) < fuel" by simp
    qed
    from fillNums_spec [OF wf co fe(1,2,3) rec rng, where pos = pos1]
    obtain b g' pos' where
      res: "fillNums (fillGrid fuel rnd) r c numbers (g, pos1) = Some (b, g', pos')"
      and t: "b \<longrightarrow> isCompletion g g'"
      and f: "\<not> b \<longrightarrow> g' = g \<and> (\<forall>h. isCompletion g h \<longrightarrow> (\<forall>v \<in> set numbers. cellAt h r c \<noteq> Num v))"
      by blast
    have eq: "fillGrid (Suc fuel) rnd (g, pos) = Some (b, g', pos')"
      using Some p sh res by simp
    have "\<not> isCompletion g h" if "\<not> b" for h
    proof
      assume h: "isCompletion g h"
      from isCompletion_empty [OF h fe] obtain v where "1 \<le> v" "v \<le> 6" "cellAt h r c = Num v"
        by blast
      moreover from this(1,2) have "v \<in> set numbers" unfolding sn by auto
      ultimately show False using f that h by blast
    qed
    with eq t f show ?thesis by blast
  qed
qed

subsection \<open>The empty grid\<close>

lemma cellAt_emptyGrid: "r < 6 \<Longrightarrow> c < 6 \<Longrightarrow> cellAt emptyGrid r c = Null"
  by (simp add: emptyGrid_def cellAt_def rowAt_def elemAt_def)

lemma wellFormed_emptyGrid: "wellFormed emptyGrid"
  by (simp add: emptyGrid_def wellFormed_def)

lemma consistent_emptyGrid: "consistent emptyGrid"
  by (simp add: consistent_def cellAt_emptyGrid)

lemma card_emptyCells: "card (emptyCells g) \<le> 36"
proof -
  have "emptyCells g \<subseteq> {..< 6} \<times> {..< 6}" by (auto simp: emptyCells_def)
  then have "card (emptyCells g) \<le> card ({..< 6 :: nat} \<times> {..< 6 :: nat})"
    by (intro card_mono) simp_all
  then show ?thesis by simp
qed

lemma example_completes_empty: "isCompletion emptyGrid exampleSolution"
  by code_simp

subsection \<open>The units of a filled grid\<close>

lemma getBox_as_cells:
  assumes "wellFormed g" and "boxRow < 3"
  shows "getBox g boxRow boxCol
           = filter (\<lambda>cell. cell \<noteq> Undefined)
               (map (\<lambda>(r, c). cellAt g r c) (boxPositions boxRow boxCol))"
proof -
  have rows: "rowAt g r = Some (g ! r)" if "r \<in> set [boxRow * 2 ..< boxRow * 2 + 2]" for r
    using that assms by (auto simp: rowAt_def wellFormed_def)
  have "getBox g boxRow boxCol
          = concat (map (\<lambda>row. case rowAt g row of
                            None \<Rightarrow> []
                          | Some currentRow \<Rightarrow>
                              filter (\<lambda>cell. cell \<noteq> Undefined)
                                (map (elemAt currentRow) [boxCol * 3 ..< boxCol * 3 + 3]))
                  [boxRow * 2 ..< boxRow * 2 + 2])"
    unfolding getBox_def Let_def BOX_WIDTH_def BOX_HEIGHT_def ..
  also have "\<dots> = concat (map (\<lambda>r. filter (\<lambda>cell. cell \<noteq> Undefined)
                                (map (\<lambda>c. cellAt g r c) [boxCol * 3 ..< boxCol * 3 + 3]))
                  [boxRow * 2 ..< boxRow * 2 + 2])"
  proof (rule arg_cong [where f = concat], rule map_cong [OF refl])
    fix r assume r: "r \<in> set [boxRow * 2 ..< boxRow * 2 + 2]"
    then have "r < length g" using assms by (auto simp: wellFormed_def)
    then have "elemAt (g ! r) = cellAt g r" by (auto simp: cellAt_def rowAt_def)
    then show "(case rowAt g r of
                  None \<Rightarrow> []
                | Some currentRow \<Rightarrow>
                    filter (\<lambda>cell. cell \<noteq> Undefined)
                      (map (elemAt currentRow) [boxCol * 3 ..< boxCol * 3 + 3]))
               = filter (\<lambda>cell. cell \<noteq> Undefined)
                   (map (\<lambda>c. cellAt g r c) [boxCol * 3 ..< boxCol * 3 + 3])"
      by (simp add: rows [OF r])
  qed
  also have "\<dots> = filter (\<lambda>cell. cell \<noteq> Undefined)
                      (map (\<lambda>(r, c). cellAt g r c) (boxPositions boxRow boxCol))"
    unfolding boxPositions_def map_concat filter_concat map_map comp_def by simp
  finally show ?thesis .
qed

lemma length_boxPositions: "length (boxPositions br bc) = 6"
  by (simp add: boxPositions_def)

text \<open>Six cells that hold distinct numbers from 1 to 6 hold each of them once.\<close>

lemma full_unit_permutation:
  assumes "length ps = 6"
    and "\<forall>p \<in> set ps. \<exists>v. f p = Num v \<and> 1 \<le> v \<and> v \<le> 6"
    and "distinct (nums (map f ps))"
  shows "isPermutation1to6 (map f ps)"
proof -
  have allnum: "length (nums (map f qs)) = length qs \<and> set (nums (map f qs)) \<subseteq> {1, 2, 3, 4, 5, 6}"
    if "\<forall>p \<in> set qs. \<exists>v. f p = Num v \<and> 1 \<le> v \<and> v \<le> 6" for qs
    using that
  proof (induction qs)
    case Nil
    show ?case by simp
  next
    case (Cons q qs)
    from Cons.prems obtain v where v: "f q = Num v" "1 \<le> v" "v \<le> 6" by auto
    from v(2,3) have "v \<in> {1, 2, 3, 4, 5, 6}" by auto
    with Cons v(1) show ?case by simp
  qed
  from allnum [OF assms(2)] assms(1)
  have len: "length (nums (map f ps)) = 6" and sub: "set (nums (map f ps)) \<subseteq> {1, 2, 3, 4, 5, 6}"
    by simp_all
  have "card (set (nums (map f ps))) = 6"
    using distinct_card [OF assms(3)] len by simp
  moreover have "card {1, 2, 3, 4, 5, 6 :: int} = 6" by simp
  ultimately have "set (nums (map f ps)) = {1, 2, 3, 4, 5, 6}"
    using sub by (intro card_subset_eq) simp_all
  with assms(1,3) show ?thesis by (simp add: isPermutation1to6_def)
qed

lemma completion_units:
  assumes h: "isCompletion emptyGrid g"
  shows "\<forall>r < 6. isPermutation1to6 (g ! r)"
    and "\<forall>c < 6. isPermutation1to6 (column g c)"
    and "\<forall>br < 3. \<forall>bc < 2. isPermutation1to6 (getBox g br bc)"
proof -
  note wf = isCompletion_wellFormed [OF h]
  from h have valid: "isValidGrid g" by (simp add: isCompletion_def isSolved_def split: if_splits)
  have cell: "\<exists>v. cellAt g r c = Num v \<and> 1 \<le> v \<and> v \<le> 6" if "r < 6" "c < 6" for r c
    using isCompletion_empty [OF h that cellAt_emptyGrid [OF that]] by blast
  have defined: "cellAt g r c \<noteq> Undefined" if "r < 6" "c < 6" for r c
    using cell [OF that] by auto
  show "\<forall>r < 6. isPermutation1to6 (g ! r)"
  proof (intro allI impI)
    fix r :: nat assume r: "r < 6"
    have "isValidUnit (g ! r)" using valid r
      by (simp add: isValidGrid_def split: if_splits)
    then have "distinct (nums (map (cellAt g r) [0 ..< 6]))"
      using row_as_cells [OF wf r] by (simp add: isValidUnit_def)
    then have "isPermutation1to6 (map (cellAt g r) [0 ..< 6])"
      by (intro full_unit_permutation) (use cell [OF r] in auto)
    then show "isPermutation1to6 (g ! r)" using row_as_cells [OF wf r] by simp
  qed
  show "\<forall>c < 6. isPermutation1to6 (column g c)"
  proof (intro allI impI)
    fix c :: nat assume c: "c < 6"
    have col: "column g c = map (\<lambda>r. cellAt g r c) [0 ..< 6]"
    proof -
      have "filter (\<lambda>cell. cell \<noteq> Undefined) (map (\<lambda>r. cellAt g r c) [0 ..< 6])
              = map (\<lambda>r. cellAt g r c) [0 ..< 6]"
        by (rule filter_True) (use defined c in auto)
      then show ?thesis by (simp add: column_def col_as_cells [OF wf])
    qed
    have "isValidUnit (column g c)" using valid c
      by (simp add: isValidGrid_def split: if_splits)
    then have "distinct (nums (map (\<lambda>r. cellAt g r c) [0 ..< 6]))"
      by (simp add: isValidUnit_def col)
    then have "isPermutation1to6 (map (\<lambda>r. cellAt g r c) [0 ..< 6])"
      by (intro full_unit_permutation) (use cell c in auto)
    then show "isPermutation1to6 (column g c)" by (simp add: col)
  qed
  show "\<forall>br < 3. \<forall>bc < 2. isPermutation1to6 (getBox g br bc)"
  proof (intro allI impI)
    fix br bc :: nat assume b: "br < 3" "bc < 2"
    let ?ps = "boxPositions br bc"
    have inb: "r < 6 \<and> c < 6" if "(r, c) \<in> set ?ps" for r c
    proof -
      from that have "r div 2 = br" "c div 3 = bc" by (simp_all add: in_boxPositions)
      with b show ?thesis by auto
    qed
    have box: "getBox g br bc = map (\<lambda>(r, c). cellAt g r c) ?ps"
    proof -
      have "filter (\<lambda>cell. cell \<noteq> Undefined) (map (\<lambda>(r, c). cellAt g r c) ?ps)
              = map (\<lambda>(r, c). cellAt g r c) ?ps"
        by (rule filter_True) (use defined inb in auto)
      then show ?thesis by (simp add: getBox_as_cells [OF wf b(1)])
    qed
    have "isValidUnit (getBox g br bc)" using valid b
      by (simp add: isValidGrid_def split: if_splits)
    then have "distinct (nums (map (\<lambda>(r, c). cellAt g r c) ?ps))"
      by (simp add: isValidUnit_def box)
    then have "isPermutation1to6 (map (\<lambda>(r, c). cellAt g r c) ?ps)"
      by (intro full_unit_permutation length_boxPositions) (use cell inb in auto)
    then show "isPermutation1to6 (getBox g br bc)" by (simp add: box)
  qed
qed

lemma fillGrid_emptyGrid:
  assumes "37 \<le> fuel"
  shows "\<exists>grid pos'. fillGrid fuel rnd (emptyGrid, pos) = Some (True, grid, pos')
           \<and> isCompletion emptyGrid grid"
proof -
  have "card (emptyCells emptyGrid) < fuel" using card_emptyCells [of emptyGrid] assms by simp
  from fillGrid_spec [OF wellFormed_emptyGrid consistent_emptyGrid this, of rnd pos]
  obtain b g' pos' where res: "fillGrid fuel rnd (emptyGrid, pos) = Some (b, g', pos')"
    and t: "b \<longrightarrow> isCompletion emptyGrid g'"
    and f: "\<not> b \<longrightarrow> g' = emptyGrid \<and> (\<forall>h. \<not> isCompletion emptyGrid h)"
    by blast
  from f example_completes_empty have bt: "b = True" by blast
  from res t show ?thesis unfolding bt by simp
qed

text \<open>
  C2: whatever numbers \<open>Math.random\<close> returns, \<open>fillGrid\<close> on the empty grid returns
  true (so \<open>generateCompleteSolution\<close> needs no retry), within a call stack of 37
  frames, and every row, every column and every 3 by 2 box of the grid it leaves is a
  permutation of 1..6.
\<close>

theorem generateCompleteSolution_permutations:
  assumes "37 \<le> fuel"
  shows "\<exists>grid pos'.
           fillGrid fuel rnd (emptyGrid, pos) = Some (True, grid, pos')
           \<and> generateCompleteSolution fuel rnd pos = Some (grid, pos')
           \<and> length grid = 6
           \<and> (\<forall>r < 6. isPermutation1to6 (grid ! r))
           \<and> (\<forall>c < 6. isPermutation1to6 (column grid c))
           \<and> (\<forall>boxRow < 3. \<forall>boxCol < 2. isPermutation1to6 (getBox grid boxRow boxCol))"
proof -
  from fillGrid_emptyGrid [OF assms, of rnd pos] obtain grid pos' where
    res: "fillGrid fuel rnd (emptyGrid, pos) = Some (True, grid, pos')"
    and h: "isCompletion emptyGrid grid"
    by blast
  have "generateCompleteSolution fuel rnd pos = Some (grid, pos')"
    by (simp add: generateCompleteSolution_def res)
  moreover have "length grid = 6"
    using isCompletion_wellFormed [OF h] by (simp add: wellFormed_def)
  ultimately show ?thesis using res completion_units [OF h] by blast
qed

theorem generateCompleteSolution_permutations_witness:
  "\<exists>grid pos'.
     generateCompleteSolution 37 (\<lambda>k. 1 / 2) 0 = Some (grid, pos')
     \<and> length grid = 6
     \<and> isPermutation1to6 (grid ! 0)
     \<and> isPermutation1to6 (column grid 5)
     \<and> isPermutation1to6 (getBox grid 2 1)"
proof -
  have "(37 :: nat) \<le> 37" by simp
  from generateCompleteSolution_permutations [OF this, of "\<lambda>k. 1 / 2" 0]
  show ?thesis by fastforce
qed

end
